theory Spec2Isabelle
  imports Main "HOL-Library.Sublist"
begin

section \<open>Data model (menu.go, ctxmenu.go)\<close>

text \<open>
  The menus of ctxmenu are Go structs that point at each other: an item points at its
  submenu, a menu at its caller, the event loop at the current menu. The model keeps them
  in an explicit store, a list of menus addressed by position; a \<open>*Menu[T]\<close> is an
  address of the store. Go's \<open>int\<close> is modelled by \<open>int\<close> (no claim depends on
  wrap-around), a string by \<open>string\<close> (a list of bytes), a panic of the runtime by a
  value of \<open>error\<close>.
\<close>

datatype OverflowItem = OverflowTop | OverflowNone | OverflowBottom

datatype error = TooMuchDepth | IconError | IndexOutOfRange

type_synonym mref = nat

text \<open>
  \<open>Item[T]\<close>. The geometry fields \<open>w, h\<close> are \<open>iw, ih\<close> here. The field
  \<open>parent\<close> is left implicit: \<open>makeItem\<close> sets it to the menu that
  \<open>AppendItem\<close> appends the item to, so it is always the menu whose list holds the
  item. \<open>icon\<close> records whether an image was loaded; \<open>labeltex\<close> is a cache of
  the renderer.
\<close>

record 'a Item =
  item_output :: 'a
  label :: string
  submenu :: "mref option"
  icon :: bool
  overflower :: OverflowItem
  iw :: int
  ih :: int

text \<open>
  \<open>Menu[T]\<close>, the fields the layout and the navigation read and write. Position and
  size \<open>x, y, w, h\<close> are \<open>mx, my, mw, mh\<close>. The handles of the presentation
  (\<open>surf, surface, layersurface, file, pool\<close>) are modelled in their own section.
\<close>

record 'a Menu =
  items :: "'a Item list"
  first :: int
  selected :: int
  overflow :: int
  mx :: int
  my :: int
  mw :: int
  mh :: int
  caller :: "mref option"
  itemsChanged :: bool
  overflowItemTop :: "'a Item"
  overflowItemBottom :: "'a Item"

type_synonym 'a store = "'a Menu list"

text \<open>
  \<open>ContextMenu\<close> with its \<open>Config\<close>, and what the code takes from outside:
  \<open>messureText\<close> and \<open>fontHeight\<close> (the font face), \<open>loadIcon\<close> (whether
  the image file decodes), the sizes of the arrow images \<open>bottomArrow\<close> and
  \<open>rightArrow\<close> (package variables that no file of the repository declares), and
  \<open>zeroT\<close>, the zero value of the type parameter.
\<close>

record 'a ContextMenu =
  MinItemWidth :: int
  BorderSize :: int
  SeperatorLength :: int
  IconSize :: int
  PaddingX :: int
  PaddingY :: int
  cx :: int
  cy :: int
  disableIcons :: bool
  seen :: bool
  monOffset :: "int \<times> int"
  monSize :: "int \<times> int"
  messureText :: "string \<Rightarrow> int"
  fontHeight :: int
  loadIcon :: "string \<Rightarrow> bool"
  bottomArrowX :: int
  bottomArrowY :: int
  rightArrowX :: int
  zeroT :: 'a

text \<open>The enum of keyboard navigation, \<open>iota\<close> from 0; \<open>itemcycle\<close> takes an int.\<close>

definition ItemPrev :: int where "ItemPrev = 0"
definition ItemNext :: int where "ItemNext = 1"
definition ItemFirst :: int where "ItemFirst = 2"
definition ItemLast :: int where "ItemLast = 3"

section \<open>MenuTree: MakeMenu, Append\<close>

definition makeOverflow :: "'a ContextMenu \<Rightarrow> bool \<Rightarrow> 'a Item" where
  "makeOverflow c istop =
     \<lparr>item_output = zeroT c, label = [], submenu = None, icon = False,
      overflower = (if istop then OverflowTop else OverflowBottom),
      iw = bottomArrowX c + PaddingX c * 2,
      ih = bottomArrowY c + PaddingY c * 2\<rparr>"

text \<open>
  \<open>MakeMenu\<close> sets \<open>x\<close> and \<open>y\<close> to -1 and the two overflow items; every other
  field keeps Go's zero value, so \<open>first\<close>, \<open>selected\<close> and \<open>overflow\<close> are 0.
\<close>

definition MakeMenu :: "'a ContextMenu \<Rightarrow> 'a Menu" where
  "MakeMenu c =
     \<lparr>items = [], first = 0, selected = 0, overflow = 0,
      mx = - 1, my = - 1, mw = 0, mh = 0, caller = None, itemsChanged = False,
      overflowItemTop = makeOverflow c True,
      overflowItemBottom = makeOverflow c False\<rparr>"

definition makeItem :: "'a ContextMenu \<Rightarrow> string \<Rightarrow> 'a \<Rightarrow> string \<Rightarrow> error + 'a Item" where
  "makeItem c lbl out imagefile =
     (let item = \<lparr>item_output = out, label = lbl, submenu = None, icon = False,
                  overflower = OverflowNone, iw = PaddingX c * 2, ih = 0\<rparr>
      in if lbl = [] then Inr (item\<lparr>ih := 1 + PaddingY c * 2\<rparr>)
         else
           let item1 = item\<lparr>iw := iw item + messureText c lbl,
                             ih := fontHeight c + PaddingY c * 2\<rparr>
           in if imagefile \<noteq> [] \<and> \<not> disableIcons c
              then (if loadIcon c imagefile
                    then Inr (item1\<lparr>icon := True,
                                    iw := iw item1 + (IconSize c + PaddingX c),
                                    ih := max (ih item1) (IconSize c + PaddingY c * 2)\<rparr>)
                    else Inl IconError)
              else Inr item1)"

definition AppendItem ::
  "'a ContextMenu \<Rightarrow> string \<Rightarrow> 'a \<Rightarrow> string \<Rightarrow> mref \<Rightarrow> 'a store \<Rightarrow> error option \<times> 'a store" where
  "AppendItem c lbl out imagefile menu st =
     (case makeItem c lbl out imagefile of
        Inl e \<Rightarrow> (Some e, st)
      | Inr item \<Rightarrow>
          (None, st[menu := (st ! menu)\<lparr>items := items (st ! menu) @ [item],
                                         itemsChanged := True\<rparr>]))"

text \<open>
  \<open>setSubmenu\<close> on the item at index \<open>i\<close> of \<open>menu\<close> (its parent): the item
  grows by the arrow, the parent's width follows, the submenu is linked.
\<close>

definition setSubmenu :: "'a ContextMenu \<Rightarrow> mref \<Rightarrow> nat \<Rightarrow> mref \<Rightarrow> 'a store \<Rightarrow> 'a store" where
  "setSubmenu c menu i sub st =
     (let m = st ! menu;
          item = items m ! i;
          item1 = item\<lparr>iw := iw item + rightArrowX c\<rparr>
      in st[menu := m\<lparr>mw := max (mw m) (iw item1),
                       items := (items m)[i := item1\<lparr>submenu := Some sub\<rparr>]\<rparr>])"

text \<open>
  The loop \<open>for range depth\<close> of \<open>Append\<close>: one level down the last item per round.
  A submenu that is missing is allocated (at the end of the store) and linked before the
  next round looks at it. The store is returned with the error, since Go has mutated it
  by then.
\<close>

fun descend :: "'a ContextMenu \<Rightarrow> nat \<Rightarrow> mref \<Rightarrow> 'a store \<Rightarrow> (error + mref) \<times> 'a store" where
  "descend c 0 menu st = (Inr menu, st)"
| "descend c (Suc d) menu st =
     (if items (st ! menu) = [] then (Inl TooMuchDepth, st)
      else
        let i = length (items (st ! menu)) - 1;
            tail = items (st ! menu) ! i
        in case submenu tail of
             None \<Rightarrow>
               let sub = length st;
                   st1 = st @ [MakeMenu c]
               in descend c d sub (setSubmenu c menu i sub st1)
           | Some sub \<Rightarrow> descend c d sub st)"

definition Append ::
  "'a ContextMenu \<Rightarrow> string \<Rightarrow> 'a \<Rightarrow> string \<Rightarrow> int \<Rightarrow> mref \<Rightarrow> 'a store \<Rightarrow> error option \<times> 'a store" where
  "Append c lbl out imagefile depth menu st =
     (case descend c (nat depth) menu st of
        (Inl e, st1) \<Rightarrow> (Some e, st1)
      | (Inr m, st1) \<Rightarrow> AppendItem c lbl out imagefile m st1)"

section \<open>NavigationStateMachine: itemcycle, matchitem\<close>

text \<open>
  The two loops of \<open>itemcycle\<close> that step over separators. The index expression
  \<open>menu.items[item]\<close> panics out of range; the loop conditions guard one side only.
\<close>

function skipForward :: "'a Item list \<Rightarrow> int \<Rightarrow> error + int" where
  "skipForward its item =
     (if item < int (length its)
      then (if item < 0 then Inl IndexOutOfRange
            else if label (its ! nat item) = [] then skipForward its (item + 1)
            else Inr item)
      else Inr item)"
  by pat_completeness auto
termination
  by (relation "measure (\<lambda>(its, item). nat (int (length its) - item))") auto

declare skipForward.simps [simp del]

function skipBackward :: "'a Item list \<Rightarrow> int \<Rightarrow> error + int" where
  "skipBackward its item =
     (if 0 \<le> item
      then (if int (length its) \<le> item then Inl IndexOutOfRange
            else if label (its ! nat item) = [] then skipBackward its (item - 1)
            else Inr item)
      else Inr item)"
  by pat_completeness auto
termination
  by (relation "measure (\<lambda>(its, item). nat (item + 1))") auto

declare skipBackward.simps [simp del]

text \<open>\<open>menu.items[item].label == ""\<close>, with the bounds check of the runtime.\<close>

definition labelEmptyAt :: "'a Item list \<Rightarrow> int \<Rightarrow> error + bool" where
  "labelEmptyAt its item =
     (if 0 \<le> item \<and> item < int (length its) then Inr (label (its ! nat item) = [])
      else Inl IndexOutOfRange)"

text \<open>
  \<open>itemcycle\<close>. A Go \<open>switch\<close> does not fall through: the empty cases
  \<open>ItemNext\<close> and \<open>ItemPrev\<close> of the second switch do nothing, and only
  \<open>ItemFirst\<close> and \<open>ItemLast\<close> step over separators.
\<close>

definition itemcycle :: "int \<Rightarrow> 'a Menu \<Rightarrow> error + int" where
  "itemcycle direction menu =
     (let n = int (length (items menu));
          item =
            (if direction = ItemNext
             then (if selected menu = - 1 then 0
                   else if selected menu < n - 1 then selected menu + 1 else - 1)
             else if direction = ItemPrev
             then (if selected menu = - 1 then n - 1
                   else if selected menu \<ge> 0 then selected menu - 1 else - 1)
             else if direction = ItemFirst then 0
             else if direction = ItemLast then n - 1
             else - 1)
      in if direction = ItemNext then Inr item
         else if direction = ItemFirst
         then (case skipForward (items menu) item of
                 Inl e \<Rightarrow> Inl e
               | Inr item1 \<Rightarrow>
                   (case labelEmptyAt (items menu) item1 of
                      Inl e \<Rightarrow> Inl e
                    | Inr b \<Rightarrow> Inr (if b then 0 else item1)))
         else if direction = ItemPrev then Inr item
         else if direction = ItemLast
         then (case skipBackward (items menu) item of
                 Inl e \<Rightarrow> Inl e
               | Inr item1 \<Rightarrow>
                   (case labelEmptyAt (items menu) item1 of
                      Inl e \<Rightarrow> Inl e
                    | Inr b \<Rightarrow> Inr (if b then n - 1 else item1)))
         else Inr item)"

text \<open>
  The inner loop of \<open>matchitem\<close>:
  \<open>for s := label; len(s) > 0; s = s[1:] { if s == text { return item } }\<close>.
  It walks the tails of the label and compares each with the whole text.
\<close>

fun labelmatch :: "string \<Rightarrow> string \<Rightarrow> bool" where
  "labelmatch [] tx = False"
| "labelmatch (ch # s) tx = (if ch # s = tx then True else labelmatch s tx)"

text \<open>
  The outer loop \<open>for ; item >= 0 && item < len(menu.items); item += dirinc\<close>;
  \<open>dirinc\<close> is -1 when \<open>back\<close> and 1 otherwise. \<open>None\<close> is the loop running out.
\<close>

function scan :: "'a Item list \<Rightarrow> string \<Rightarrow> bool \<Rightarrow> int \<Rightarrow> int option" where
  "scan its tx back item =
     (if 0 \<le> item \<and> item < int (length its)
      then (if labelmatch (label (its ! nat item)) tx then Some item
            else scan its tx back (if back then item - 1 else item + 1))
      else None)"
  by pat_completeness auto
termination
  by (relation "measure (\<lambda>(its, tx, back, item).
        if back then nat (item + 1) else nat (int (length its) - item))") auto

declare scan.simps [simp del]

definition matchitem :: "string \<Rightarrow> int \<Rightarrow> 'a Menu \<Rightarrow> int" where
  "matchitem tx dir menu =
     (let n = int (length (items menu));
          back = (dir < 0);
          item =
            (if dir < 0
             then (if selected menu \<noteq> - 1 \<and> selected menu > 0 then selected menu - 1
                   else n - 1)
             else if dir > 0
             then (if selected menu \<noteq> - 1 \<and> selected menu < n - 1 then selected menu + 1
                   else 0)
             else 0)
      in case scan (items menu) tx back item of
           Some r \<Rightarrow> r
         | None \<Rightarrow>
             (case scan (items menu) tx back (if dir > 0 then 0 else n - 1) of
                Some r \<Rightarrow> r
              | None \<Rightarrow> - 1))"

text \<open>
  The order in which \<open>matchitem\<close> visits the items, written from the description of the
  function: one pass from the item next to the selection in the direction of \<open>dir\<close>,
  then one pass over the whole list in that direction; from index 0 when \<open>dir\<close> is 0.
  \<open>matchitem_spec\<close> returns the first index of that order whose label passes the
  test, or -1.
\<close>

definition matchitem_order :: "int \<Rightarrow> int \<Rightarrow> int \<Rightarrow> int list" where
  "matchitem_order dir sel n =
     (if dir < 0
      then (let s = (if sel \<noteq> - 1 \<and> sel > 0 then sel - 1 else n - 1)
            in (if s < n then rev [0..s] else []) @ rev [0..n - 1])
      else if dir > 0
      then (let s = (if sel \<noteq> - 1 \<and> sel < n - 1 then sel + 1 else 0)
            in (if 0 \<le> s then [s..n - 1] else []) @ [0..n - 1])
      else [0..n - 1])"

definition matchitem_spec :: "string \<Rightarrow> int \<Rightarrow> 'a Menu \<Rightarrow> int" where
  "matchitem_spec tx dir menu =
     (case find (\<lambda>i. labelmatch (label (items menu ! nat i)) tx)
             (matchitem_order dir (selected menu) (int (length (items menu)))) of
        None \<Rightarrow> - 1
      | Some i \<Rightarrow> i)"

section \<open>Building a tree line by line\<close>

text \<open>
  The command of the repository reads one line per item and calls \<open>Append\<close> on the
  root menu with the label, the output, the icon path and the depth of the line. A line
  is the tuple of these four; \<open>build\<close> starts from a store that holds the root menu
  alone (address 0) and applies the lines in order.
\<close>

type_synonym 'a line = "string \<times> 'a \<times> string \<times> int"

definition appendLine :: "'a ContextMenu \<Rightarrow> 'a store \<Rightarrow> 'a line \<Rightarrow> 'a store" where
  "appendLine c st ln =
     (case ln of (lbl, out, imagefile, depth) \<Rightarrow> snd (Append c lbl out imagefile depth 0 st))"

definition build :: "'a ContextMenu \<Rightarrow> 'a line list \<Rightarrow> 'a store" where
  "build c lns = foldl (appendLine c) [MakeMenu c] lns"

section \<open>Visible window and hit test: visibleItems, getitem, isoverflowitem\<close>

text \<open>
  \<open>visibleItems\<close> is a Go iterator: it yields \<open>(-1, overflowItemTop)\<close>, then
  \<open>(i, menu.items[i])\<close> for the indices of the window, then
  \<open>(-1, overflowItemBottom)\<close>. The model lists what it yields; an index outside the
  slice is the panic the iterator would raise when the loop reaches it, so a consumer
  that returns earlier never meets it.
\<close>

definition visibleItems :: "bool \<Rightarrow> 'a Menu \<Rightarrow> (error + int \<times> 'a Item) list" where
  "visibleItems withOverflow menu =
     (if withOverflow \<and> overflow menu \<noteq> - 1 then [Inr (- 1, overflowItemTop menu)] else [])
     @ map (\<lambda>i. if 0 \<le> i \<and> i < int (length (items menu))
                 then Inr (i, items menu ! nat i) else Inl IndexOutOfRange)
         (if overflow menu \<noteq> - 1
          then [first menu..first menu + overflow menu - 1]
          else [0..int (length (items menu)) - 1])
     @ (if withOverflow \<and> overflow menu \<noteq> - 1 then [Inr (- 1, overflowItemBottom menu)] else [])"

fun getitem_loop :: "int \<Rightarrow> int \<Rightarrow> (error + int \<times> 'a Item) list \<Rightarrow> error + int" where
  "getitem_loop target y [] = Inr (- 1)"
| "getitem_loop target y (Inl e # rest) = Inl e"
| "getitem_loop target y (Inr (i, item) # rest) =
     (if i \<noteq> - 1 \<and> y \<le> target \<and> target < y + ih item then Inr i
      else getitem_loop target (y + ih item) rest)"

definition getitem :: "'a ContextMenu \<Rightarrow> 'a Menu \<Rightarrow> int \<Rightarrow> error + int" where
  "getitem c menu target = getitem_loop target (BorderSize c) (visibleItems True menu)"

text \<open>The loop \<open>for _, item := range menu.visibleItems(false) { y += item.h }\<close>.\<close>

fun sumVisible :: "int \<Rightarrow> (error + int \<times> 'a Item) list \<Rightarrow> error + int" where
  "sumVisible y [] = Inr y"
| "sumVisible y (Inl e # rest) = Inl e"
| "sumVisible y (Inr (i, item) # rest) = sumVisible (y + ih item) rest"

definition isoverflowitem :: "'a ContextMenu \<Rightarrow> 'a Menu \<Rightarrow> int \<Rightarrow> error + OverflowItem" where
  "isoverflowitem c menu target =
     (if overflow menu = - 1 then Inr OverflowNone
      else
        let y = BorderSize c
        in if y \<le> target \<and> target < y + ih (overflowItemTop menu) then Inr OverflowTop
           else
             (case sumVisible (y + ih (overflowItemTop menu)) (visibleItems False menu) of
                Inl e \<Rightarrow> Inl e
              | Inr y1 \<Rightarrow>
                  if y1 \<le> target \<and> target < y1 + ih (overflowItemBottom menu)
                  then Inr OverflowBottom else Inr OverflowNone))"

section \<open>LayoutEngine: show\<close>

text \<open>\<open>Monitor\<close>: the rectangle \<open>(Min, Max)\<close> of the display, \<open>Max = Min + size\<close>.\<close>

definition Monitor :: "'a ContextMenu \<Rightarrow> (int \<times> int) \<times> (int \<times> int)" where
  "Monitor c =
     (monOffset c,
      (fst (monOffset c) + fst (monSize c), snd (monOffset c) + snd (monSize c)))"

text \<open>
  The second loop of \<open>show\<close>, over the items with their index: it stops at the first
  item that does not fit under \<open>maxY\<close> and records its index as \<open>overflow\<close>. The
  triple is \<open>(menu.w, menu.h, menu.overflow)\<close>.
\<close>

fun fitItems :: "int \<Rightarrow> 'a Item list \<Rightarrow> int \<Rightarrow> int \<times> int \<times> int \<Rightarrow> int \<times> int \<times> int" where
  "fitItems maxY [] i (w, h, ov) = (w, h, ov)"
| "fitItems maxY (item # rest) i (w, h, ov) =
     (if ih item + h > maxY then (w, h, i)
      else fitItems maxY rest (i + 1) (max w (iw item), h + ih item, ov))"

text \<open>The block \<open>if menu.itemsChanged { ... }\<close> of \<open>show\<close>.\<close>

definition recompute :: "'a ContextMenu \<Rightarrow> 'a Menu \<Rightarrow> 'a Menu" where
  "recompute c menu =
     (let maxY = snd (snd (Monitor c));
          w1 = foldl (\<lambda>w item. max w (iw item)) (BorderSize c * 2 + MinItemWidth c) (items menu);
          h1 = foldl (\<lambda>h item. h + ih item) (BorderSize c * 2) (items menu);
          m1 = menu\<lparr>itemsChanged := False, mw := w1, mh := h1, first := 0, overflow := - 1\<rparr>
      in if h1 > maxY
         then (case fitItems maxY (items menu) 0
                      (w1, (bottomArrowY c + PaddingY c * 2 + BorderSize c) * 2, - 1) of
                 (w2, h2, ov) \<Rightarrow> m1\<lparr>mw := w2, mh := h2, overflow := ov\<rparr>)
         else m1)"

text \<open>The loop \<open>for i := start; i < caller.selected; i++ { menu.y += caller.items[i].h }\<close>.\<close>

fun sumHeights :: "'a Item list \<Rightarrow> int list \<Rightarrow> int \<Rightarrow> error + int" where
  "sumHeights its [] y = Inr y"
| "sumHeights its (i # rest) y =
     (if 0 \<le> i \<and> i < int (length its) then sumHeights its rest (y + ih (its ! nat i))
      else Inl IndexOutOfRange)"

text \<open>The branch \<open>else if menu.x == -1 || menu.y == -1\<close>: the spawn point.\<close>

definition spawnAt :: "'a ContextMenu \<Rightarrow> 'a Menu \<Rightarrow> 'a Menu" where
  "spawnAt c menu =
     (if mx menu = - 1 \<or> my menu = - 1
      then menu\<lparr>mx := cx c, my := (if overflow menu = - 1 then cy c else 0)\<rparr>
      else menu)"

text \<open>The two final clamps of \<open>show\<close>.\<close>

definition clampToMonitor :: "'a ContextMenu \<Rightarrow> 'a Menu \<Rightarrow> 'a Menu" where
  "clampToMonitor c menu =
     (let mr = Monitor c;
          m1 = (if mx menu < fst (fst mr) then menu\<lparr>mx := fst (fst mr)\<rparr>
                else if mx menu + mw menu > fst (snd mr) then menu\<lparr>mx := fst (snd mr) - mw menu\<rparr>
                else menu)
      in if my m1 < snd (fst mr) then m1\<lparr>my := snd (fst mr)\<rparr>
         else if my m1 + mh m1 > snd (snd mr) then m1\<lparr>my := snd (snd mr) - mh m1\<rparr>
         else m1)"

text \<open>
  \<open>show\<close>, on the fields of the layout. Its calls of \<open>hideChildren\<close> and
  \<open>updateWindow\<close> write the presentation handles only. The \<open>else if\<close> of the
  positioning belongs to \<open>if caller != nil && menu.caller != caller\<close>, so the spawn
  point is also tried when the caller is the one already recorded.
\<close>

definition show_menu :: "'a ContextMenu \<Rightarrow> mref \<Rightarrow> mref option \<Rightarrow> 'a store \<Rightarrow> error + 'a store" where
  "show_menu c menu caller0 st =
     (let cal = (if caller0 = Some menu then None else caller0);
          mr = Monitor c;
          m1 = (if itemsChanged (st ! menu) then recompute c (st ! menu) else st ! menu);
          placed =
            (case cal of
               None \<Rightarrow> Inr (spawnAt c m1)
             | Some cl \<Rightarrow>
                 if caller m1 \<noteq> Some cl
                 then
                   (let cm = st ! cl;
                        x1 = mx cm + mw cm;
                        x2 = (if x1 < fst (fst mr) then fst (fst mr)
                              else if x1 + mw m1 > fst (snd mr) then mx cm - mw m1
                              else x1);
                        m2 = m1\<lparr>caller := Some cl, mx := x2\<rparr>
                    in if overflow m2 = - 1
                       then (case sumHeights (items cm)
                                    [(if overflow cm \<noteq> - 1 then first cm else 0)..selected cm - 1]
                                    (my cm) of
                               Inl e \<Rightarrow> Inl e
                             | Inr y1 \<Rightarrow> Inr (m2\<lparr>my := y1\<rparr>))
                       else Inr m2)
                 else Inr (spawnAt c m1))
      in case placed of
           Inl e \<Rightarrow> Inl e
         | Inr m3 \<Rightarrow> Inr (st[menu := clampToMonitor c m3]))"

section \<open>EventDispatcher: Run\<close>

text \<open>
  The events the loop of \<open>Run\<close> switches on, with the fields it reads. A motion event
  carries \<open>int(ev.SurfaceY)\<close>; an axis event its axis and value, of which only the sign
  is read; a button event its state and button; a key event its state and key. The
  state \<open>pressed\<close> is 1 for buttons and keys, the middle button is 2. Every other
  event type is \<open>OtherEvent\<close>.
\<close>

datatype axis = PointerAxisVerticalScroll | PointerAxisHorizontalScroll

datatype event =
    QuitEvent
  | WlSurfaceEnterEvent
  | PointerLeaveEvent
  | PointerEnterEvent
  | PointerMotionEvent int
  | PointerAxisEvent axis int
  | PointerButtonEvent nat nat
  | KeyboardKeymapEvent nat
  | KeyboardKeyEvent nat nat
  | OtherEvent

definition PRESSED :: nat where "PRESSED = 1"
definition BUTTON_MIDDLE :: nat where "BUTTON_MIDDLE = 2"
definition KeyboardKeyStatePressed :: nat where "KeyboardKeyStatePressed = 1"

text \<open>
  The variables of \<open>Run\<close>: the store of menus and the context (whose flag \<open>seen\<close>
  the loop sets), \<open>curmenu\<close>, the type-ahead buffer, the item last hovered (an item
  pointer is the address of its menu and its index there), whether the dismiss timer is
  armed, \<open>warped\<close> and \<open>curY\<close>.
\<close>

record 'a RunState =
  menus :: "'a store"
  ctxmenu :: "'a ContextMenu"
  rootmenu :: mref
  curmenu :: mref
  buf :: string
  previtem :: "(mref \<times> nat) option"
  hasleft :: bool
  warped :: bool
  curY :: int

datatype runerr = ErrExited

text \<open>One round of the loop either goes on or returns \<open>(value, err)\<close>.\<close>

datatype 'a outcome = Continue "'a RunState" | Return 'a "runerr option"

text \<open>
  The end of a round: \<open>ActionClear\<close> empties the buffer, \<open>ActionWarp\<close> warps the
  pointer and sets \<open>warped\<close>; \<open>ActionDraw\<close> redraws the current menu, which writes
  the presentation only.
\<close>

definition finishRound :: "bool \<Rightarrow> bool \<Rightarrow> 'a RunState \<Rightarrow> 'a RunState" where
  "finishRound clear warp s =
     (let s1 = (if clear then s\<lparr>buf := []\<rparr> else s)
      in if warp then s1\<lparr>warped := True\<rparr> else s1)"

text \<open>The two scroll steps, as both the axis and the button case write them.\<close>

definition scrollUp :: "'a Menu \<Rightarrow> 'a Menu" where
  "scrollUp m = m\<lparr>first := max (first m - 1) 0\<rparr>"

definition scrollDown :: "'a Menu \<Rightarrow> 'a Menu" where
  "scrollDown m = m\<lparr>first := min (first m + 1) (int (length (items m)) - overflow m)\<rparr>"

definition onMotion :: "'a RunState \<Rightarrow> int \<Rightarrow> error + 'a outcome" where
  "onMotion s0 y =
     (let s = s0\<lparr>curY := y\<rparr>
      in if warped s then Inr (Continue (s\<lparr>warped := False\<rparr>))
         else
           let menu = curmenu s; st = menus s
           in case getitem (ctxmenu s) (st ! menu) y of
                Inl e \<Rightarrow> Inl e
              | Inr itemidx \<Rightarrow>
                  if itemidx = - 1 then Inr (Continue s)
                  else
                    let item = items (st ! menu) ! nat itemidx
                    in if previtem s = Some (menu, nat itemidx) then Inr (Continue s)
                       else
                         let c1 = (ctxmenu s)\<lparr>seen := True\<rparr>;
                             st1 = st[menu := (st ! menu)
                                      \<lparr>selected := (if label item = [] then - 1 else itemidx)\<rparr>];
                             cur = (case submenu item of Some sub \<Rightarrow> sub | None \<Rightarrow> menu);
                             st2 = (case submenu item of
                                      Some sub \<Rightarrow> st1[sub := (st1 ! sub)\<lparr>selected := - 1\<rparr>]
                                    | None \<Rightarrow> st1)
                         in case show_menu c1 cur (Some menu) st2 of
                              Inl e \<Rightarrow> Inl e
                            | Inr st3 \<Rightarrow>
                                Inr (Continue (finishRound True False
                                  (s\<lparr>menus := st3, ctxmenu := c1, curmenu := cur,
                                     previtem := Some (menu, nat itemidx)\<rparr>))))"

definition onAxis :: "'a RunState \<Rightarrow> axis \<Rightarrow> int \<Rightarrow> error + 'a outcome" where
  "onAxis s ax v =
     (let cur = curmenu s; st = menus s
      in if ax \<noteq> PointerAxisHorizontalScroll then Inr (Continue s)
         else if overflow (st ! cur) = - 1 then Inr (Continue s)
         else if v < 0
         then Inr (Continue (finishRound True False (s\<lparr>menus := st[cur := scrollUp (st ! cur)]\<rparr>)))
         else if v > 0
         then Inr (Continue (finishRound True False (s\<lparr>menus := st[cur := scrollDown (st ! cur)]\<rparr>)))
         else Inr (Continue s))"

definition onButton :: "'a RunState \<Rightarrow> nat \<Rightarrow> nat \<Rightarrow> error + 'a outcome" where
  "onButton s state button =
     (if state \<noteq> PRESSED then Inr (Continue s)
      else
        let menu = curmenu s; st = menus s
        in case getitem (ctxmenu s) (st ! menu) (curY s) of
             Inl e \<Rightarrow> Inl e
           | Inr item \<Rightarrow>
               (case isoverflowitem (ctxmenu s) (st ! menu) (curY s) of
                  Inl e \<Rightarrow> Inl e
                | Inr ovitem \<Rightarrow>
                    if item = - 1 \<and> ovitem = OverflowNone
                    then Inr (Continue (finishRound True False
                           (s\<lparr>menus := st[menu := (st ! menu)\<lparr>selected := - 1, first := 0\<rparr>]\<rparr>)))
                    else if ovitem = OverflowTop
                    then Inr (Continue (finishRound True False
                           (s\<lparr>menus := st[menu := scrollUp (st ! menu)]\<rparr>)))
                    else if ovitem = OverflowBottom
                    then Inr (Continue (finishRound True False
                           (s\<lparr>menus := st[menu := scrollDown (st ! menu)]\<rparr>)))
                    else if \<not> (0 \<le> item \<and> item < int (length (items (st ! menu))))
                    then Inl IndexOutOfRange
                    else
                      let it = items (st ! menu) ! nat item
                      in if label it = [] then Inr (Return (zeroT (ctxmenu s)) None)
                         else
                           (case submenu it of
                              None \<Rightarrow> Inr (Return (item_output it) None)
                            | Some sub \<Rightarrow>
                                (case show_menu (ctxmenu s) sub (Some menu) st of
                                   Inl e \<Rightarrow> Inl e
                                 | Inr st1 \<Rightarrow>
                                     Inr (Continue (finishRound True (button = BUTTON_MIDDLE)
                                       (s\<lparr>menus := st1[sub := (st1 ! sub)\<lparr>selected := 0\<rparr>],
                                          curmenu := sub\<rparr>)))))))"

text \<open>
  The body of the loop. The case of a key event tests the state and prints the key; the
  rest of it (Escape, Home, End, Tab, the arrows, digits, Return, type-ahead) stands in a
  comment in the source, so no key changes the state. The timer that
  \<open>PointerLeaveEvent\<close> arms sends on a channel the loop never reads.
\<close>

definition handleEvent :: "'a RunState \<Rightarrow> event \<Rightarrow> error + 'a outcome" where
  "handleEvent s ev =
     (case ev of
        QuitEvent \<Rightarrow> Inr (Return (zeroT (ctxmenu s)) (Some ErrExited))
      | WlSurfaceEnterEvent \<Rightarrow> Inr (Continue s)
      | PointerLeaveEvent \<Rightarrow>
          Inr (Continue (if seen (ctxmenu s) then s\<lparr>hasleft := True\<rparr> else s))
      | PointerEnterEvent \<Rightarrow> Inr (Continue (s\<lparr>hasleft := False\<rparr>))
      | PointerMotionEvent y \<Rightarrow> onMotion s y
      | PointerAxisEvent ax v \<Rightarrow> onAxis s ax v
      | PointerButtonEvent state button \<Rightarrow> onButton s state button
      | KeyboardKeymapEvent fmt \<Rightarrow> Inr (Continue s)
      | KeyboardKeyEvent state key \<Rightarrow>
          if state \<noteq> KeyboardKeyStatePressed then Inr (Continue s) else Inr (Continue s)
      | OtherEvent \<Rightarrow> Inr (Continue s))"

text \<open>
  The loop over the events of the channel, in order. When the list is used up the loop
  waits for the next event: the result is the state it waits in.
\<close>

fun runLoop :: "'a RunState \<Rightarrow> event list \<Rightarrow> error + 'a outcome" where
  "runLoop s [] = Inr (Continue s)"
| "runLoop s (ev # evs) =
     (case handleEvent s ev of
        Inr (Continue s1) \<Rightarrow> runLoop s1 evs
      | r \<Rightarrow> r)"


section \<open>PresentationSurface: updateWindow, draw, drawFrame\<close>

text \<open>
  The presentation handles of one menu and the protocol objects they name. Objects of
  the compositor protocol (surfaces, pools, buffers) are numbers handed out by
  \<open>nextId\<close>. \<open>attached\<close> lists the buffers the client has attached and whose
  release has not arrived, each with the surface it was attached to. Pixels are not
  modelled.
\<close>

record Presentation =
  surf :: bool
  surface :: "nat option"
  layersurface :: "nat option"
  pool :: "nat option"
  nextId :: nat
  attached :: "(nat \<times> nat) list"

datatype perror = NilSurface

text \<open>
  \<open>openFile\<close> (a failure of the temporary file or of the mapping ends the process and
  is not modelled) and \<open>updateWindow\<close>: the first call allocates the pixel buffer, the
  surface, the layer surface and the pool; later calls only set the margin.
\<close>

definition openFile :: "Presentation \<Rightarrow> Presentation" where
  "openFile p = (if \<not> surf p then p else p\<lparr>pool := Some (nextId p), nextId := nextId p + 1\<rparr>)"

definition updateWindow :: "Presentation \<Rightarrow> Presentation" where
  "updateWindow p =
     (if surface p = None
      then openFile (p\<lparr>surf := True, surface := Some (nextId p),
                       layersurface := Some (nextId p + 1), nextId := nextId p + 2\<rparr>)
      else p)"

text \<open>
  \<open>drawFrame\<close>: without a pool it returns; otherwise it damages the surface, creates a
  buffer over the pool and attaches it. Nothing in it looks at the buffers attached
  before. A nil surface is a nil dereference.
\<close>

definition drawFrame :: "Presentation \<Rightarrow> perror + Presentation" where
  "drawFrame p =
     (if pool p = None then Inr p
      else
        (case surface p of
           None \<Rightarrow> Inl NilSurface
         | Some sf \<Rightarrow>
             Inr (p\<lparr>attached := attached p @ [(sf, nextId p)], nextId := nextId p + 1\<rparr>)))"

text \<open>
  \<open>draw\<close> rasterises, then calls \<open>drawFrame\<close> and commits the surface; the handler
  \<open>OnConfigure\<close> acknowledges, then does the same. \<open>OnRelease\<close> destroys the buffer
  that was released. \<open>hide\<close> destroys the layer surface and the surface and keeps the
  pool.
\<close>

definition draw :: "Presentation \<Rightarrow> perror + Presentation" where
  "draw p =
     (case drawFrame p of
        Inl e \<Rightarrow> Inl e
      | Inr p1 \<Rightarrow> (case surface p1 of None \<Rightarrow> Inl NilSurface | Some sf \<Rightarrow> Inr p1))"

definition onRelease :: "nat \<Rightarrow> Presentation \<Rightarrow> Presentation" where
  "onRelease b p = p\<lparr>attached := filter (\<lambda>(sf, b1). b1 \<noteq> b) (attached p)\<rparr>"

definition hide :: "Presentation \<Rightarrow> Presentation" where
  "hide p = p\<lparr>layersurface := None, surface := None\<rparr>"

datatype pevent = UpdateWindow | Draw | Configure | Release nat | Hide

definition pstep :: "Presentation \<Rightarrow> pevent \<Rightarrow> perror + Presentation" where
  "pstep p ev =
     (case ev of
        UpdateWindow \<Rightarrow> Inr (updateWindow p)
      | Draw \<Rightarrow> draw p
      | Configure \<Rightarrow> draw p
      | Release b \<Rightarrow> Inr (onRelease b p)
      | Hide \<Rightarrow> Inr (hide p))"

fun prun :: "Presentation \<Rightarrow> pevent list \<Rightarrow> perror + Presentation" where
  "prun p [] = Inr p"
| "prun p (ev # evs) = (case pstep p ev of Inl e \<Rightarrow> Inl e | Inr p1 \<Rightarrow> prun p1 evs)"

text \<open>The buffers attached to a surface and not yet released, and the redraws of a run.\<close>

definition outstanding :: "nat \<Rightarrow> Presentation \<Rightarrow> nat" where
  "outstanding sf p = length (filter (\<lambda>(sf1, b). sf1 = sf) (attached p))"

definition redraws :: "pevent list \<Rightarrow> nat" where
  "redraws evs = length (filter (\<lambda>ev. ev = Draw \<or> ev = Configure) evs)"

definition newPresentation :: Presentation where
  "newPresentation =
     \<lparr>surf = False, surface = None, layersurface = None, pool = None, nextId = 0,
      attached = []\<rparr>"

section \<open>Invariant of a menu\<close>

text \<open>
  The invariant of the data model, with the one case the code adds: \<open>MakeMenu\<close> leaves
  \<open>selected\<close> at 0, so a menu without items has the selection 0.
\<close>

definition menu_inv :: "'a Menu \<Rightarrow> bool" where
  "menu_inv m \<longleftrightarrow>
     (selected m = - 1
      \<or> (0 \<le> selected m \<and> selected m < int (length (items m)))
      \<or> (selected m = 0 \<and> items m = []))
     \<and> (if overflow m = - 1 then first m = 0
        else 0 \<le> first m \<and> first m \<le> int (length (items m)) - overflow m)"

text \<open>
  What it means that \<open>depth\<close> levels can be walked from \<open>menu\<close>: at every level the
  menu has an item, and its last item has a submenu to go on in; the last step may end
  on an item without a submenu, which \<open>Append\<close> then creates. A depth exceeds the chain
  when it cannot be walked.
\<close>

fun walkable :: "'a store \<Rightarrow> mref \<Rightarrow> nat \<Rightarrow> bool" where
  "walkable st menu 0 = True"
| "walkable st menu (Suc d) =
     (if items (st ! menu) = [] then False
      else (case submenu (last (items (st ! menu))) of
              None \<Rightarrow> d = 0
            | Some sub \<Rightarrow> walkable st sub d))"

text \<open>
  Where a walk that fails has changed the tree: \<open>chainEnd st menu depth\<close> is the menu
  whose last item has no submenu while more than one level is still to go, the first
  such menu down the last items from \<open>menu\<close>; it is \<open>None\<close> when the walk
  meets no such item, that is when it ends in a menu without items.
\<close>

fun chainEnd :: "'a store \<Rightarrow> mref \<Rightarrow> nat \<Rightarrow> mref option" where
  "chainEnd st menu 0 = None"
| "chainEnd st menu (Suc d) =
     (if items (st ! menu) = [] then None
      else (case submenu (last (items (st ! menu))) of
              None \<Rightarrow> (if d = 0 then None else Some menu)
            | Some sub \<Rightarrow> chainEnd st sub d))"

text \<open>
  Every submenu pointer of the store is an address of the store: Go's pointers are never
  dangling.
\<close>

definition wf_store :: "'a store \<Rightarrow> bool" where
  "wf_store st \<longleftrightarrow>
     (\<forall>m \<in> set st. \<forall>it \<in> set (items m). \<forall>sub. submenu it = Some sub \<longrightarrow> sub < length st)"

section \<open>Example menus\<close>

text \<open>
  Concrete menus on which the theorems below are evaluated: \<open>plainMenu ls s\<close> has one
  item per label of \<open>ls\<close> (an empty label is a separator), each 10 wide and 20 high,
  the selection \<open>s\<close>, and no scrolling.
\<close>

definition plainItem :: "string \<Rightarrow> string Item" where
  "plainItem l =
     \<lparr>item_output = l, label = l, submenu = None, icon = False,
      overflower = OverflowNone, iw = 10, ih = 20\<rparr>"

definition plainMenu :: "string list \<Rightarrow> int \<Rightarrow> string Menu" where
  "plainMenu ls s =
     \<lparr>items = map plainItem ls, first = 0, selected = s, overflow = - 1,
      mx = 0, my = 0, mw = 0, mh = 0, caller = None, itemsChanged = False,
      overflowItemTop = plainItem [], overflowItemBottom = plainItem []\<rparr>"

text \<open>
  Two contexts. \<open>exampleCtx\<close> has the sizes the command of the repository configures
  (border 1, padding 4, minimum width 130, icons of 24) on a display of 1920 by 1080;
  \<open>smallCtx\<close> has border 0 and a display 50 high, items 20 high and scroll indicators
  5 high. Text is measured at 8 per byte; no icon file loads.
\<close>

definition exampleCtx :: "string ContextMenu" where
  "exampleCtx =
     \<lparr>MinItemWidth = 130, BorderSize = 1, SeperatorLength = 3, IconSize = 24,
      PaddingX = 4, PaddingY = 4, cx = 0, cy = 0, disableIcons = False, seen = False,
      monOffset = (0, 0), monSize = (1920, 1080),
      messureText = (\<lambda>s. 8 * int (length s)), fontHeight = 16,
      loadIcon = (\<lambda>f. False), bottomArrowX = 8, bottomArrowY = 8, rightArrowX = 8,
      zeroT = []\<rparr>"

definition smallCtx :: "string ContextMenu" where
  "smallCtx =
     \<lparr>MinItemWidth = 30, BorderSize = 0, SeperatorLength = 3, IconSize = 24,
      PaddingX = 0, PaddingY = 0, cx = 0, cy = 0, disableIcons = False, seen = False,
      monOffset = (0, 0), monSize = (100, 50),
      messureText = (\<lambda>s. 8 * int (length s)), fontHeight = 20,
      loadIcon = (\<lambda>f. False), bottomArrowX = 5, bottomArrowY = 5, rightArrowX = 5,
      zeroT = []\<rparr>"

text \<open>
  \<open>offsetCtx\<close> is \<open>smallCtx\<close> with the display placed 100 below the origin of the
  compositor's space, as the lower of two displays is: the geometry event of the output
  reports its position, the mode event its size.
\<close>

definition offsetCtx :: "string ContextMenu" where
  "offsetCtx = smallCtx\<lparr>monOffset := (0, 100)\<rparr>"

text \<open>
  Three trees: \<open>oneItemStore\<close> is a root with the single item A; \<open>emptyStore\<close>
  is a root without items; \<open>editStore\<close> is the tree of the input
  \<open>Edit, (tab) Cut, (tab) Copy, View\<close>.
\<close>

definition oneItemStore :: "string store" where
  "oneItemStore = build exampleCtx [(''A'', ''a'', [], 0)]"

definition emptyStore :: "string store" where
  "emptyStore = build exampleCtx []"

definition editLines :: "string line list" where
  "editLines =
     [(''Edit'', ''edit'', [], 0), (''Cut'', ''cut'', [], 1), (''Copy'', ''copy'', [], 1),
      (''View'', ''view'', [], 0)]"

definition editStore :: "string store" where
  "editStore = build exampleCtx editLines"

text \<open>
  \<open>threeStore\<close> is a root of three items 20 high on the display 50 high;
  \<open>shownPresentation\<close> is the presentation of a menu after its first
  \<open>updateWindow\<close>.
\<close>

definition threeStore :: "string store" where
  "threeStore =
     build smallCtx [(''one'', ''1'', [], 0), (''two'', ''2'', [], 0), (''three'', ''3'', [], 0)]"

definition shownPresentation :: Presentation where
  "shownPresentation = updateWindow newPresentation"

text \<open>
  \<open>twoAttached\<close> is that presentation after two calls of \<open>draw\<close>: the buffers 3
  and 4 are attached to surface 0 and neither is released.
\<close>

definition twoAttached :: Presentation where
  "twoAttached =
     \<lparr>surf = True, surface = Some 0, layersurface = Some 1, pool = Some 2, nextId = 5,
      attached = [(0, 3), (0, 4)]\<rparr>"

text \<open>
  \<open>threeShown\<close> is \<open>threeStore\<close> after \<open>show\<close> of the root: two of the three
  items fit between the indicators. \<open>scrollState\<close> is the loop on it with the pointer
  at 47, over the lower indicator; \<open>unshownState\<close> is the loop on the store as built.
\<close>

definition threeShown :: "string store" where
  "threeShown =
     [(threeStore ! 0)\<lparr>first := 0, overflow := 2, mx := 0, my := 0, mw := 40, mh := 50,
                       itemsChanged := False\<rparr>]"

definition scrollState :: "string RunState" where
  "scrollState =
     \<lparr>menus = threeShown, ctxmenu = smallCtx, rootmenu = 0, curmenu = 0, buf = [],
      previtem = None, hasleft = False, warped = False, curY = 47\<rparr>"


section \<open>Properties of itemcycle\<close>

text \<open>
  C8. For a non-empty menu, \<open>itemcycle(ItemNext)\<close> on the last index returns -1: it
  neither wraps to 0 nor keeps the selection; \<open>ItemPrev\<close> from -1 returns the last
  index, \<open>ItemNext\<close> from -1 returns 0, and \<open>ItemNext\<close> from an index below the last
  returns the next index. None of these steps over a separator or reads an item.
\<close>

theorem itemcycle_next_prev:
  assumes "items m \<noteq> []"
  shows "(selected m = int (length (items m)) - 1 \<longrightarrow> itemcycle ItemNext m = Inr (- 1))
       \<and> (selected m = - 1 \<longrightarrow> itemcycle ItemPrev m = Inr (int (length (items m)) - 1))
       \<and> (selected m = - 1 \<longrightarrow> itemcycle ItemNext m = Inr 0)
       \<and> (selected m < int (length (items m)) - 1 \<longrightarrow> itemcycle ItemNext m = Inr (selected m + 1))"
proof -
  have n: "0 < int (length (items m))" using assms by simp
  then show ?thesis
    by (auto simp: itemcycle_def ItemNext_def ItemPrev_def ItemFirst_def ItemLast_def Let_def)
qed

theorem itemcycle_next_prev_witness:
  "itemcycle ItemNext (plainMenu [''a'', ''b''] 1) = Inr (- 1)
   \<and> itemcycle ItemPrev (plainMenu [''a'', ''b''] (- 1)) = Inr 1
   \<and> itemcycle ItemNext (plainMenu [''a'', ''b''] (- 1)) = Inr 0
   \<and> itemcycle ItemNext (plainMenu [''a'', ''b''] 0) = Inr 1"
  using itemcycle_next_prev [of "plainMenu [''a'', ''b''] 1"]
        itemcycle_next_prev [of "plainMenu [''a'', ''b''] (- 1)"]
        itemcycle_next_prev [of "plainMenu [''a'', ''b''] 0"]
  by (simp add: plainMenu_def)

text \<open>
  The claim as the specification states it, that \<open>ItemNext\<close> on the last index leaves the
  selection where it is, fails: with two items and the second selected the result is -1.
\<close>

theorem itemcycle_next_at_last_counterexample:
  "selected (plainMenu [''a'', ''b''] 1) = 1
   \<and> itemcycle ItemNext (plainMenu [''a'', ''b''] 1) = Inr (- 1)
   \<and> itemcycle ItemNext (plainMenu [''a'', ''b''] 1) \<noteq> Inr (selected (plainMenu [''a'', ''b''] 1))"
  by (simp add: itemcycle_def plainMenu_def ItemNext_def)

lemma skipForward_all_separators:
  "0 \<le> item \<Longrightarrow> \<forall>it \<in> set its. label it = [] \<Longrightarrow>
   skipForward its item = Inr (max item (int (length its)))"
proof (induction its item rule: skipForward.induct)
  case (1 its item)
  show ?case
  proof (cases "item < int (length its)")
    case True
    with 1 have "label (its ! nat item) = []" by simp
    with 1 True show ?thesis by (subst skipForward.simps) simp
  next
    case False
    then show ?thesis by (subst skipForward.simps) simp
  qed
qed

lemma skipBackward_all_separators:
  "item < int (length its) \<Longrightarrow> \<forall>it \<in> set its. label it = [] \<Longrightarrow>
   skipBackward its item = Inr (min item (- 1))"
proof (induction its item rule: skipBackward.induct)
  case (1 its item)
  show ?case
  proof (cases "0 \<le> item")
    case True
    with 1 have "label (its ! nat item) = []" by simp
    with 1 True show ?thesis by (subst skipBackward.simps) simp
  next
    case False
    then show ?thesis by (subst skipBackward.simps) simp
  qed
qed

text \<open>
  C5. When every item of the menu is a separator (and also when the menu is empty),
  \<open>itemcycle(ItemFirst)\<close> and \<open>itemcycle(ItemLast)\<close> do not fall back to 0 or to the last
  index: the loop leaves the index one step outside the list, and the test
  \<open>menu.items[item].label == ""\<close> that guards the fallback reads out of range.
\<close>

theorem itemcycle_first_last_all_separators:
  assumes "\<forall>it \<in> set (items m). label it = []"
  shows "itemcycle ItemFirst m = Inl IndexOutOfRange
       \<and> itemcycle ItemLast m = Inl IndexOutOfRange"
proof -
  have f: "skipForward (items m) 0 = Inr (int (length (items m)))"
    using skipForward_all_separators [of 0 "items m"] assms by simp
  have b: "skipBackward (items m) (int (length (items m)) - 1) = Inr (- 1)"
    using skipBackward_all_separators [of "int (length (items m)) - 1" "items m"] assms
    by simp
  show ?thesis
    using f b
    by (simp add: itemcycle_def ItemNext_def ItemPrev_def ItemFirst_def ItemLast_def
          labelEmptyAt_def Let_def)
qed

theorem itemcycle_first_last_all_separators_witness:
  "itemcycle ItemFirst (plainMenu [[]] (- 1)) = Inl IndexOutOfRange
   \<and> itemcycle ItemLast (plainMenu [[]] (- 1)) = Inl IndexOutOfRange"
  using itemcycle_first_last_all_separators [of "plainMenu [[]] (- 1)"]
  by (simp add: plainMenu_def plainItem_def)

text \<open>
  Where a labelled item exists the first part of C5 holds: \<open>ItemFirst\<close> returns the
  index of the first labelled item, here the item after a leading separator.
\<close>

lemma itemcycle_first_skips_separator:
  "itemcycle ItemFirst (plainMenu [[], ''open''] (- 1)) = Inr 1"
  by (simp add: itemcycle_def plainMenu_def plainItem_def ItemNext_def ItemFirst_def
        labelEmptyAt_def skipForward.simps)

section \<open>Properties of matchitem\<close>

lemma labelmatch_iff: "labelmatch l tx \<longleftrightarrow> tx \<noteq> [] \<and> suffix tx l"
  by (induction l) (auto simp: suffix_Cons)

lemma scan_up:
  "0 \<le> s \<Longrightarrow>
   scan its tx False s =
     find (\<lambda>i. labelmatch (label (its ! nat i)) tx) [s..int (length its) - 1]"
proof (induction its tx "False" s rule: scan.induct)
  case (1 its tx item)
  show ?case
  proof (cases "item < int (length its)")
    case True
    then have "[item..int (length its) - 1] = item # [item + 1..int (length its) - 1]"
      by (simp add: upto_rec1)
    with 1 True show ?thesis by (subst scan.simps) simp
  next
    case False
    then show ?thesis using 1 by (subst scan.simps) simp
  qed
qed

lemma scan_up_neg: "s < 0 \<Longrightarrow> scan its tx False s = None"
  by (subst scan.simps) simp

lemma scan_down:
  "s < int (length its) \<Longrightarrow>
   scan its tx True s = find (\<lambda>i. labelmatch (label (its ! nat i)) tx) (rev [0..s])"
proof (induction its tx "True" s rule: scan.induct)
  case (1 its tx item)
  show ?case
  proof (cases "0 \<le> item")
    case True
    then have "[0..item] = [0..item - 1] @ [item]"
      by (simp add: upto_rec2)
    with 1 True show ?thesis by (subst scan.simps) simp
  next
    case False
    then show ?thesis using 1 by (subst scan.simps) simp
  qed
qed

lemma scan_down_big: "int (length its) \<le> s \<Longrightarrow> scan its tx True s = None"
  by (subst scan.simps) simp

lemma find_append_opt:
  "find P (xs @ ys) = (case find P xs of None \<Rightarrow> find P ys | Some x \<Rightarrow> Some x)"
  by (induction xs) auto

lemma find_last_redundant:
  "find P [0..n - 1] = None \<Longrightarrow> 0 < n \<Longrightarrow> find P [n - 1..n - 1] = None"
  by (auto simp: find_None_iff)

lemma matchitem_refines_spec: "matchitem tx dir m = matchitem_spec tx dir m"
proof -
  let ?n = "int (length (items m))"
  let ?P = "\<lambda>i. labelmatch (label (items m ! nat i)) tx"
  consider (neg) "dir < 0" | (pos) "dir > 0" | (zero) "dir = 0" by linarith
  then show ?thesis
  proof cases
    case neg
    define s where "s = (if selected m \<noteq> - 1 \<and> selected m > 0 then selected m - 1 else ?n - 1)"
    have second: "scan (items m) tx True (?n - 1) = find ?P (rev [0..?n - 1])"
      by (rule scan_down) simp
    have first: "scan (items m) tx True s = find ?P (if s < ?n then rev [0..s] else [])"
      using scan_down [of s "items m" tx] scan_down_big [of "items m" s tx] by auto
    show ?thesis
      using neg first second
      unfolding matchitem_def matchitem_spec_def matchitem_order_def Let_def s_def [symmetric]
      by (auto simp: find_append_opt s_def split: option.splits)
  next
    case pos
    define s where "s = (if selected m \<noteq> - 1 \<and> selected m < ?n - 1 then selected m + 1 else 0)"
    have second: "scan (items m) tx False 0 = find ?P [0..?n - 1]"
      by (rule scan_up) simp
    have first: "scan (items m) tx False s = find ?P (if 0 \<le> s then [s..?n - 1] else [])"
      using scan_up [of s "items m" tx] scan_up_neg [of s "items m" tx] by auto
    show ?thesis
      using pos first second
      unfolding matchitem_def matchitem_spec_def matchitem_order_def Let_def s_def [symmetric]
      by (auto simp: find_append_opt s_def split: option.splits)
  next
    case zero
    have first: "scan (items m) tx False 0 = find ?P [0..?n - 1]"
      by (rule scan_up) simp
    have second: "find ?P [0..?n - 1] = None \<Longrightarrow> scan (items m) tx False (?n - 1) = None"
    proof (cases "?n > 0")
      case True
      assume "find ?P [0..?n - 1] = None"
      then have "find ?P [?n - 1..?n - 1] = None" using True by (rule find_last_redundant)
      then show ?thesis using scan_up [of "?n - 1" "items m" tx] True by simp
    next
      case False
      then show ?thesis by (subst scan.simps) simp
    qed
    show ?thesis
      using zero first second
      unfolding matchitem_def matchitem_spec_def matchitem_order_def Let_def
      by (auto split: option.splits)
  qed
qed

lemma matchitem_spec_range:
  "matchitem_spec tx dir m = - 1 \<or>
   (0 \<le> matchitem_spec tx dir m \<and> matchitem_spec tx dir m < int (length (items m))
    \<and> labelmatch (label (items m ! nat (matchitem_spec tx dir m))) tx)"
proof (cases "find (\<lambda>i. labelmatch (label (items m ! nat i)) tx)
                (matchitem_order dir (selected m) (int (length (items m))))")
  case None
  then show ?thesis by (simp add: matchitem_spec_def)
next
  case (Some i)
  then have "i \<in> set (matchitem_order dir (selected m) (int (length (items m))))"
    and "labelmatch (label (items m ! nat i)) tx"
    by (auto simp: find_Some_iff)
  moreover from this(1) have "0 \<le> i \<and> i < int (length (items m))"
    by (auto simp: matchitem_order_def Let_def split: if_splits)
  ultimately show ?thesis using Some by (simp add: matchitem_spec_def)
qed

lemma matchitem_spec_none:
  assumes "\<forall>it \<in> set (items m). \<not> labelmatch (label it) tx"
  shows "matchitem_spec tx dir m = - 1"
proof -
  have "\<not> labelmatch (label (items m ! nat i)) tx"
    if "i \<in> set (matchitem_order dir (selected m) (int (length (items m))))" for i
  proof -
    from that have "0 \<le> i \<and> i < int (length (items m))"
      by (auto simp: matchitem_order_def Let_def split: if_splits)
    then have "nat i < length (items m)" by linarith
    then have "items m ! nat i \<in> set (items m)" by (rule nth_mem)
    with assms show ?thesis by blast
  qed
  then have "find (\<lambda>i. labelmatch (label (items m ! nat i)) tx)
          (matchitem_order dir (selected m) (int (length (items m)))) = None"
    by (auto simp: find_None_iff)
  then show ?thesis by (simp add: matchitem_spec_def)
qed

text \<open>
  C4, as amended. \<open>matchitem\<close> returns the first index, in the order of
  \<open>matchitem_order\<close> (from the neighbour of the selection in the direction of \<open>dir\<close>,
  then once over the whole list; from index 0 when \<open>dir\<close> is 0), whose label passes the
  label test of the code, and -1 when no label passes it. The result is -1 or a valid
  index. The test walks the tails of the label, so a match is not tied to the start of
  the label: a label that passes is not empty (a separator is never returned) and the
  text occurs in it.
\<close>

theorem matchitem_scan_order:
  "matchitem tx dir m = matchitem_spec tx dir m
   \<and> (matchitem tx dir m = - 1 \<or>
        (0 \<le> matchitem tx dir m \<and> matchitem tx dir m < int (length (items m))
         \<and> label (items m ! nat (matchitem tx dir m)) \<noteq> []
         \<and> sublist tx (label (items m ! nat (matchitem tx dir m)))))
   \<and> ((\<forall>it \<in> set (items m). \<not> sublist tx (label it)) \<longrightarrow> matchitem tx dir m = - 1)"
proof -
  have eq: "matchitem tx dir m = matchitem_spec tx dir m"
    by (rule matchitem_refines_spec)
  have lm: "labelmatch l tx \<Longrightarrow> l \<noteq> [] \<and> sublist tx l" for l
    by (cases l) (auto simp: labelmatch_iff dest: suffix_imp_sublist)
  have range: "matchitem tx dir m = - 1 \<or>
        (0 \<le> matchitem tx dir m \<and> matchitem tx dir m < int (length (items m))
         \<and> label (items m ! nat (matchitem tx dir m)) \<noteq> []
         \<and> sublist tx (label (items m ! nat (matchitem tx dir m))))"
    using matchitem_spec_range [of tx dir m] lm unfolding eq by blast
  have none: "(\<forall>it \<in> set (items m). \<not> sublist tx (label it)) \<longrightarrow> matchitem tx dir m = - 1"
    using matchitem_spec_none [of m tx dir] lm unfolding eq by blast
  from eq range none show ?thesis by blast
qed

theorem matchitem_scan_order_witness:
  "matchitem ''b'' 1 (plainMenu [''ab'', [], ''cb'', ''xb''] 2) = 3
   \<and> matchitem ''b'' (- 1) (plainMenu [''ab'', [], ''cb'', ''xb''] 2) = 0
   \<and> matchitem ''b'' 1 (plainMenu [''ab'', [], ''cb'', ''xb''] 3) = 0
   \<and> matchitem ''q'' 0 (plainMenu [''ab'', [], ''cb'', ''xb''] 3) = - 1"
  using matchitem_scan_order [of "''b''" 1 "plainMenu [''ab'', [], ''cb'', ''xb''] 2"]
        matchitem_scan_order [of "''b''" "- 1" "plainMenu [''ab'', [], ''cb'', ''xb''] 2"]
        matchitem_scan_order [of "''b''" 1 "plainMenu [''ab'', [], ''cb'', ''xb''] 3"]
        matchitem_scan_order [of "''q''" 0 "plainMenu [''ab'', [], ''cb'', ''xb''] 3"]
  by (simp add: matchitem_spec_def matchitem_order_def plainMenu_def plainItem_def
        upto_rec1)

text \<open>
  The claim as the specification states it, that the returned item's label starts with
  the text, fails: the label \<open>ab\<close> does not start with \<open>b\<close>, and \<open>matchitem\<close>
  returns its index.
\<close>

theorem matchitem_prefix_counterexample:
  "matchitem ''b'' 0 (plainMenu [''ab''] (- 1)) = 0
   \<and> label (items (plainMenu [''ab''] (- 1)) ! 0) = ''ab''
   \<and> \<not> prefix ''b'' ''ab''"
  by (simp add: matchitem_def plainMenu_def plainItem_def scan.simps)

section \<open>Properties of Append\<close>

text \<open>
  What \<open>Append\<close> keeps: a property of menus that the fresh menu has, that survives a
  change of width and of items in place, and that survives a new last item, holds for
  every menu of the store afterwards, whether the call fails or not.
\<close>

lemma set_update_all:
  assumes "\<forall>m \<in> set st. Q m" and "k < length st \<Longrightarrow> Q v"
  shows "\<forall>m \<in> set (st[k := v]). Q m"
proof (cases "k < length st")
  case True
  then have "set (st[k := v]) \<subseteq> insert v (set st)" by (simp add: set_update_subset_insert)
  then show ?thesis using assms True by auto
next
  case False
  then have "st[k := v] = st" by (simp add: list_update_beyond)
  then show ?thesis using assms by simp
qed

lemma setSubmenu_pres:
  assumes all: "\<forall>m \<in> set st. Q m"
    and upd: "\<And>m a its. Q m \<Longrightarrow> length its = length (items m) \<Longrightarrow> Q (m\<lparr>mw := a, items := its\<rparr>)"
  shows "\<forall>m \<in> set (setSubmenu c menu i sub st). Q m"
  unfolding setSubmenu_def Let_def
proof (rule set_update_all [OF all])
  assume "menu < length st"
  then have "Q (st ! menu)" using all by simp
  then show "Q ((st ! menu)\<lparr>mw := max (mw (st ! menu)) (iw ((items (st ! menu) ! i)\<lparr>iw := iw (items (st ! menu) ! i) + rightArrowX c\<rparr>)),
        items := (items (st ! menu))[i := (items (st ! menu) ! i)\<lparr>iw := iw (items (st ! menu) ! i) + rightArrowX c, submenu := Some sub\<rparr>]\<rparr>)"
    by (rule upd) simp
qed

lemma descend_pres:
  assumes mk: "Q (MakeMenu c)"
    and upd: "\<And>m a its. Q m \<Longrightarrow> length its = length (items m) \<Longrightarrow> Q (m\<lparr>mw := a, items := its\<rparr>)"
  shows "\<forall>m \<in> set st. Q m \<Longrightarrow> \<forall>m \<in> set (snd (descend c d menu st)). Q m"
proof (induction d arbitrary: menu st)
  case 0
  then show ?case by simp
next
  case (Suc d)
  show ?case
  proof (cases "items (st ! menu) = []")
    case True
    with Suc show ?thesis by simp
  next
    case False
    let ?i = "length (items (st ! menu)) - 1"
    show ?thesis
    proof (cases "submenu (items (st ! menu) ! ?i)")
      case None
      let ?st2 = "setSubmenu c menu ?i (length st) (st @ [MakeMenu c])"
      have "\<forall>m \<in> set (st @ [MakeMenu c]). Q m" using Suc.prems mk by simp
      then have "\<forall>m \<in> set ?st2. Q m" using upd by (rule setSubmenu_pres)
      then have "\<forall>m \<in> set (snd (descend c d (length st) ?st2)). Q m" by (rule Suc.IH)
      then show ?thesis using False None by (simp add: Let_def)
    next
      case (Some sub)
      have "\<forall>m \<in> set (snd (descend c d sub st)). Q m" using Suc.prems by (rule Suc.IH)
      then show ?thesis using False Some by (simp add: Let_def)
    qed
  qed
qed

lemma AppendItem_pres:
  assumes all: "\<forall>m \<in> set st. Q m"
    and app: "\<And>m it. Q m \<Longrightarrow> Q (m\<lparr>items := items m @ [it], itemsChanged := True\<rparr>)"
  shows "\<forall>m \<in> set (snd (AppendItem c lbl out img menu st)). Q m"
proof (cases "makeItem c lbl out img")
  case (Inl e)
  then show ?thesis using all by (simp add: AppendItem_def)
next
  case (Inr it)
  have "\<forall>m \<in> set (st[menu := (st ! menu)\<lparr>items := items (st ! menu) @ [it], itemsChanged := True\<rparr>]). Q m"
  proof (rule set_update_all [OF all])
    assume "menu < length st"
    then have "Q (st ! menu)" using all by simp
    then show "Q ((st ! menu)\<lparr>items := items (st ! menu) @ [it], itemsChanged := True\<rparr>)"
      by (rule app)
  qed
  then show ?thesis using Inr by (simp add: AppendItem_def)
qed

lemma Append_pres:
  assumes mk: "Q (MakeMenu c)"
    and upd: "\<And>m a its. Q m \<Longrightarrow> length its = length (items m) \<Longrightarrow> Q (m\<lparr>mw := a, items := its\<rparr>)"
    and app: "\<And>m it. Q m \<Longrightarrow> Q (m\<lparr>items := items m @ [it], itemsChanged := True\<rparr>)"
    and all: "\<forall>m \<in> set st. Q m"
  shows "\<forall>m \<in> set (snd (Append c lbl out img depth menu st)). Q m"
proof (cases "descend c (nat depth) menu st")
  case (Pair r st1)
  have "\<forall>m \<in> set (snd (descend c (nat depth) menu st)). Q m"
    using mk upd all by (rule descend_pres)
  then have st1: "\<forall>m \<in> set st1. Q m" using Pair by simp
  show ?thesis
  proof (cases r)
    case (Inl e)
    then show ?thesis using Pair st1 by (simp add: Append_def)
  next
    case (Inr m1)
    have "\<forall>m \<in> set (snd (AppendItem c lbl out img m1 st1)). Q m"
      using st1 app by (rule AppendItem_pres)
    then show ?thesis using Pair Inr by (simp add: Append_def)
  qed
qed

lemma build_pres:
  assumes mk: "Q (MakeMenu c)"
    and upd: "\<And>m a its. Q m \<Longrightarrow> length its = length (items m) \<Longrightarrow> Q (m\<lparr>mw := a, items := its\<rparr>)"
    and app: "\<And>m it. Q m \<Longrightarrow> Q (m\<lparr>items := items m @ [it], itemsChanged := True\<rparr>)"
  shows "\<forall>m \<in> set (build c lns). Q m"
proof -
  have "\<forall>m \<in> set st. Q m \<Longrightarrow> \<forall>m \<in> set (foldl (appendLine c) st lns). Q m" for st
  proof (induction lns arbitrary: st)
    case Nil
    then show ?case by simp
  next
    case (Cons ln lns)
    obtain lbl out img depth where ln: "ln = (lbl, out, img, depth)" by (cases ln) auto
    have "\<forall>m \<in> set (snd (Append c lbl out img depth 0 st)). Q m"
      using mk upd app Cons.prems by (rule Append_pres)
    then have "\<forall>m \<in> set (appendLine c st ln). Q m" by (simp add: appendLine_def ln)
    then have "\<forall>m \<in> set (foldl (appendLine c) (appendLine c st ln) lns). Q m" by (rule Cons.IH)
    then show ?case by simp
  qed
  moreover have "\<forall>m \<in> set [MakeMenu c]. Q m" using mk by simp
  ultimately show ?thesis unfolding build_def by blast
qed

lemma wf_last_submenu:
  "wf_store st \<Longrightarrow> menu < length st \<Longrightarrow> items (st ! menu) \<noteq> [] \<Longrightarrow>
   submenu (last (items (st ! menu))) = Some sub \<Longrightarrow> sub < length st"
  unfolding wf_store_def using last_in_set nth_mem by blast

lemma descend_too_deep:
  assumes wf: "wf_store st"
  shows "menu < length st \<Longrightarrow> \<not> walkable st menu d \<Longrightarrow>
    \<exists>st'. descend c d menu st = (Inl TooMuchDepth, st') \<and>
      (st' = st \<or>
       (\<exists>k < length st. items (st ! k) \<noteq> [] \<and> submenu (last (items (st ! k))) = None \<and>
          st' = setSubmenu c k (length (items (st ! k)) - 1) (length st) (st @ [MakeMenu c])))"
proof (induction d arbitrary: menu)
  case 0
  then show ?case by simp
next
  case (Suc d)
  show ?case
  proof (cases "items (st ! menu) = []")
    case True
    then show ?thesis by simp
  next
    case False
    then have tail: "items (st ! menu) ! (length (items (st ! menu)) - 1) = last (items (st ! menu))"
      by (simp add: last_conv_nth)
    show ?thesis
    proof (cases "submenu (last (items (st ! menu)))")
      case None
      with Suc.prems False obtain d' where d: "d = Suc d'" by (cases d) auto
      let ?st2 = "setSubmenu c menu (length (items (st ! menu)) - 1) (length st) (st @ [MakeMenu c])"
      have "?st2 ! length st = MakeMenu c"
        using Suc.prems(1) by (simp add: setSubmenu_def Let_def)
      then have "items (?st2 ! length st) = []" by (simp add: MakeMenu_def)
      then have "descend c d (length st) ?st2 = (Inl TooMuchDepth, ?st2)"
        by (simp add: d)
      then have "descend c (Suc d) menu st = (Inl TooMuchDepth, ?st2)"
        using False None tail by (simp add: Let_def)
      then show ?thesis using Suc.prems(1) False None by blast
    next
      case (Some sub)
      then have "sub < length st" using wf Suc.prems(1) False by (auto dest: wf_last_submenu)
      moreover have "\<not> walkable st sub d" using Suc.prems(2) False Some by simp
      ultimately have "\<exists>st'. descend c d sub st = (Inl TooMuchDepth, st') \<and>
        (st' = st \<or>
         (\<exists>k < length st. items (st ! k) \<noteq> [] \<and> submenu (last (items (st ! k))) = None \<and>
            st' = setSubmenu c k (length (items (st ! k)) - 1) (length st) (st @ [MakeMenu c])))"
        by (rule Suc.IH)
      moreover have "descend c (Suc d) menu st = descend c d sub st"
        using False Some tail by (simp add: Let_def)
      ultimately show ?thesis by simp
    qed
  qed
qed

lemma descend_walkable:
  assumes wf: "wf_store st"
  shows "menu < length st \<Longrightarrow> walkable st menu d \<Longrightarrow> \<exists>m st'. descend c d menu st = (Inr m, st')"
proof (induction d arbitrary: menu)
  case 0
  then show ?case by simp
next
  case (Suc d)
  then have ne: "items (st ! menu) \<noteq> []" by (auto split: if_splits)
  then have tail: "items (st ! menu) ! (length (items (st ! menu)) - 1) = last (items (st ! menu))"
    by (simp add: last_conv_nth)
  show ?case
  proof (cases "submenu (last (items (st ! menu)))")
    case None
    then have "d = 0" using Suc.prems(2) ne by simp
    then show ?thesis using ne None tail by (simp add: Let_def)
  next
    case (Some sub)
    then have "sub < length st" using wf Suc.prems(1) ne by (auto dest: wf_last_submenu)
    moreover have "walkable st sub d" using Suc.prems(2) ne Some by simp
    ultimately have "\<exists>m st'. descend c d sub st = (Inr m, st')" by (rule Suc.IH)
    then show ?thesis using ne Some tail by (simp add: Let_def)
  qed
qed

lemma AppendItem_no_depth_error: "fst (AppendItem c lbl out img menu st) \<noteq> Some TooMuchDepth"
  by (auto simp: AppendItem_def makeItem_def Let_def split: sum.splits if_splits)


lemma chainEnd_props:
  assumes wf: "wf_store st"
  shows "menu < length st \<Longrightarrow> chainEnd st menu d = Some k \<Longrightarrow>
    k < length st \<and> items (st ! k) \<noteq> [] \<and> submenu (last (items (st ! k))) = None"
proof (induction d arbitrary: menu)
  case 0
  then show ?case by simp
next
  case (Suc d)
  then have ne: "items (st ! menu) \<noteq> []" by (auto split: if_splits)
  show ?case
  proof (cases "submenu (last (items (st ! menu)))")
    case None
    then have "k = menu" using Suc.prems(2) ne by (simp split: if_splits)
    then show ?thesis using Suc.prems(1) ne None by simp
  next
    case (Some sub)
    then have "sub < length st" using wf Suc.prems(1) ne by (auto dest: wf_last_submenu)
    moreover have "chainEnd st sub d = Some k" using Suc.prems(2) ne Some by simp
    ultimately show ?thesis by (rule Suc.IH)
  qed
qed

lemma descend_too_deep_exact:
  assumes wf: "wf_store st"
  shows "menu < length st \<Longrightarrow> \<not> walkable st menu d \<Longrightarrow>
    descend c d menu st =
      (Inl TooMuchDepth,
       case chainEnd st menu d of
         None \<Rightarrow> st
       | Some k \<Rightarrow> setSubmenu c k (length (items (st ! k)) - 1) (length st) (st @ [MakeMenu c]))"
proof (induction d arbitrary: menu)
  case 0
  then show ?case by simp
next
  case (Suc d)
  show ?case
  proof (cases "items (st ! menu) = []")
    case True
    then show ?thesis by simp
  next
    case False
    then have tail: "items (st ! menu) ! (length (items (st ! menu)) - 1) = last (items (st ! menu))"
      by (simp add: last_conv_nth)
    show ?thesis
    proof (cases "submenu (last (items (st ! menu)))")
      case None
      with Suc.prems False obtain d' where d: "d = Suc d'" by (cases d) auto
      let ?st2 = "setSubmenu c menu (length (items (st ! menu)) - 1) (length st) (st @ [MakeMenu c])"
      have "?st2 ! length st = MakeMenu c"
        using Suc.prems(1) by (simp add: setSubmenu_def Let_def)
      then have "items (?st2 ! length st) = []" by (simp add: MakeMenu_def)
      then have "descend c d (length st) ?st2 = (Inl TooMuchDepth, ?st2)"
        by (simp add: d)
      then have "descend c (Suc d) menu st = (Inl TooMuchDepth, ?st2)"
        using False None tail by (simp add: Let_def)
      moreover have "chainEnd st menu (Suc d) = Some menu" using False None d by simp
      ultimately show ?thesis by simp
    next
      case (Some sub)
      then have "sub < length st" using wf Suc.prems(1) False by (auto dest: wf_last_submenu)
      moreover have "\<not> walkable st sub d" using Suc.prems(2) False Some by simp
      ultimately have "descend c d sub st =
        (Inl TooMuchDepth,
         case chainEnd st sub d of
           None \<Rightarrow> st
         | Some k \<Rightarrow> setSubmenu c k (length (items (st ! k)) - 1) (length st) (st @ [MakeMenu c]))"
        by (rule Suc.IH)
      moreover have "descend c (Suc d) menu st = descend c d sub st"
        using False Some tail by (simp add: Let_def)
      moreover have "chainEnd st menu (Suc d) = chainEnd st sub d" using False Some by simp
      ultimately show ?thesis by simp
    qed
  qed
qed

lemma setSubmenu_length: "length (setSubmenu c k i sub st) = length st"
  by (simp add: setSubmenu_def Let_def)

lemma setSubmenu_other: "j \<noteq> k \<Longrightarrow> setSubmenu c k i sub st ! j = st ! j"
  by (simp add: setSubmenu_def Let_def)

lemma setSubmenu_items:
  assumes "k < length st"
  shows "items (setSubmenu c k i sub st ! k) =
     (items (st ! k))[i := (items (st ! k) ! i)\<lparr>iw := iw (items (st ! k) ! i) + rightArrowX c,
                                                submenu := Some sub\<rparr>]"
  using assms by (simp add: setSubmenu_def Let_def)

lemma map_update_same:
  assumes "f y = f (xs ! i)"
  shows "map f (xs[i := y]) = map f xs"
proof (cases "i < length xs")
  case True
  have "map f (xs[i := y]) = (map f xs)[i := f y]" by (simp add: map_update)
  also have "\<dots> = (map f xs)[i := (map f xs) ! i]" using assms True by simp
  also have "\<dots> = map f xs" by simp
  finally show ?thesis .
next
  case False
  then have "xs[i := y] = xs" by (simp add: list_update_beyond)
  then show ?thesis by simp
qed

lemma setSubmenu_keeps:
  assumes "j < length st"
  shows "map label (items (setSubmenu c k i (length st) (st @ [MakeMenu c]) ! j)) = map label (items (st ! j))
       \<and> map item_output (items (setSubmenu c k i (length st) (st @ [MakeMenu c]) ! j)) =
           map item_output (items (st ! j))"
proof (cases "j = k")
  case True
  have k: "k < length (st @ [MakeMenu c])" using assms True by simp
  have e: "(st @ [MakeMenu c]) ! k = st ! k" using assms True by (simp add: nth_append)
  show ?thesis
    unfolding True setSubmenu_items [OF k] e
    by (simp add: map_update_same)
next
  case False
  then show ?thesis using assms by (simp add: setSubmenu_other nth_append)
qed

lemma oneItemStore_eval:
  "oneItemStore =
     [\<lparr>items = [\<lparr>item_output = ''a'', label = ''A'', submenu = None, icon = False,
                 overflower = OverflowNone, iw = 16, ih = 24\<rparr>],
       first = 0, selected = 0, overflow = 0, mx = - 1, my = - 1, mw = 0, mh = 0,
       caller = None, itemsChanged = True,
       overflowItemTop = makeOverflow exampleCtx True,
       overflowItemBottom = makeOverflow exampleCtx False\<rparr>]"
  by (simp add: oneItemStore_def build_def appendLine_def Append_def AppendItem_def
        makeItem_def MakeMenu_def exampleCtx_def Let_def)

lemma emptyStore_eval: "emptyStore = [MakeMenu exampleCtx]"
  by (simp add: emptyStore_def build_def)

text \<open>
  C2, as amended. On a store without dangling pointers, \<open>Append\<close> fails with the depth
  error exactly when the depth cannot be walked down the last items. The failed call
  adds no item to any menu: every menu keeps its labels and outputs. What it does to
  the tree is determined. If the walk ends in a menu without items, the store is as it
  was. If it comes to a last item without a submenu while more than one level is to go,
  that item, and no other, has got a new, empty submenu (and the width of the arrow):
  the store holds one menu more, the menu \<open>MakeMenu\<close> returns, the item points to it,
  and every other menu is as it was. The submenu is created by the round of the loop
  before the one that finds it empty.
\<close>

theorem Append_too_deep:
  assumes "wf_store st" and "menu < length st"
  shows "(fst (Append c lbl out img depth menu st) = Some TooMuchDepth
            \<longleftrightarrow> \<not> walkable st menu (nat depth))
       \<and> (\<not> walkable st menu (nat depth) \<longrightarrow>
            snd (Append c lbl out img depth menu st) =
              (case chainEnd st menu (nat depth) of
                 None \<Rightarrow> st
               | Some k \<Rightarrow>
                   setSubmenu c k (length (items (st ! k)) - 1) (length st) (st @ [MakeMenu c]))
            \<and> (\<forall>k. chainEnd st menu (nat depth) = Some k \<longrightarrow>
                  k < length st \<and> items (st ! k) \<noteq> [] \<and> submenu (last (items (st ! k))) = None
                  \<and> length (snd (Append c lbl out img depth menu st)) = length st + 1
                  \<and> snd (Append c lbl out img depth menu st) ! length st = MakeMenu c
                  \<and> submenu (last (items (snd (Append c lbl out img depth menu st) ! k))) =
                      Some (length st)
                  \<and> (\<forall>j < length st. j \<noteq> k \<longrightarrow>
                        snd (Append c lbl out img depth menu st) ! j = st ! j))
            \<and> (\<forall>j < length st.
                  map label (items (snd (Append c lbl out img depth menu st) ! j)) =
                    map label (items (st ! j))
                  \<and> map item_output (items (snd (Append c lbl out img depth menu st) ! j)) =
                    map item_output (items (st ! j))))"
proof (cases "walkable st menu (nat depth)")
  case True
  then obtain m st' where "descend c (nat depth) menu st = (Inr m, st')"
    using descend_walkable [OF assms] by blast
  then show ?thesis using True AppendItem_no_depth_error [of c lbl out img m st']
    by (simp add: Append_def)
next
  case False
  let ?r = "snd (Append c lbl out img depth menu st)"
  have d: "descend c (nat depth) menu st =
      (Inl TooMuchDepth,
       case chainEnd st menu (nat depth) of
         None \<Rightarrow> st
       | Some k \<Rightarrow> setSubmenu c k (length (items (st ! k)) - 1) (length st) (st @ [MakeMenu c]))"
    using assms False by (rule descend_too_deep_exact)
  have f: "fst (Append c lbl out img depth menu st) = Some TooMuchDepth"
    by (simp add: Append_def d)
  have s: "?r =
      (case chainEnd st menu (nat depth) of
         None \<Rightarrow> st
       | Some k \<Rightarrow> setSubmenu c k (length (items (st ! k)) - 1) (length st) (st @ [MakeMenu c]))"
    by (simp add: Append_def d)
  have p: "k < length st \<and> items (st ! k) \<noteq> [] \<and> submenu (last (items (st ! k))) = None
         \<and> length ?r = length st + 1 \<and> ?r ! length st = MakeMenu c
         \<and> submenu (last (items (?r ! k))) = Some (length st)
         \<and> (\<forall>j < length st. j \<noteq> k \<longrightarrow> ?r ! j = st ! j)"
    if ce: "chainEnd st menu (nat depth) = Some k" for k
  proof -
    have kp: "k < length st \<and> items (st ! k) \<noteq> [] \<and> submenu (last (items (st ! k))) = None"
      using assms ce by (rule chainEnd_props)
    have r: "?r = setSubmenu c k (length (items (st ! k)) - 1) (length st) (st @ [MakeMenu c])"
      using s ce by simp
    have k1: "k < length (st @ [MakeMenu c])" using kp by simp
    have e: "(st @ [MakeMenu c]) ! k = st ! k" using kp by (simp add: nth_append)
    have l: "length ?r = length st + 1" unfolding r by (simp add: setSubmenu_length)
    have n: "?r ! length st = MakeMenu c" unfolding r using kp by (simp add: setSubmenu_other)
    have o: "\<forall>j < length st. j \<noteq> k \<longrightarrow> ?r ! j = st ! j"
      unfolding r by (simp add: setSubmenu_other nth_append)
    have "submenu (last (items (?r ! k))) = Some (length st)"
      unfolding r setSubmenu_items [OF k1] e using kp
      by (simp add: last_conv_nth)
    then show ?thesis using kp l n o by blast
  qed
  have k: "\<forall>j < length st.
        map label (items (?r ! j)) = map label (items (st ! j))
        \<and> map item_output (items (?r ! j)) = map item_output (items (st ! j))"
  proof (cases "chainEnd st menu (nat depth)")
    case None
    then show ?thesis using s by simp
  next
    case (Some k)
    then have r: "?r = setSubmenu c k (length (items (st ! k)) - 1) (length st) (st @ [MakeMenu c])"
      using s by simp
    show ?thesis unfolding r using setSubmenu_keeps by blast
  qed
  show ?thesis using False f s p k by blast
qed

theorem Append_too_deep_witness:
  "wf_store oneItemStore \<and> 0 < length oneItemStore \<and> \<not> walkable oneItemStore 0 (nat 2)
   \<and> chainEnd oneItemStore 0 (nat 2) = Some 0
   \<and> fst (Append exampleCtx ''B'' ''b'' [] 2 0 oneItemStore) = Some TooMuchDepth
   \<and> snd (Append exampleCtx ''B'' ''b'' [] 2 0 oneItemStore) =
       setSubmenu exampleCtx 0 0 1 (oneItemStore @ [MakeMenu exampleCtx])
   \<and> length (snd (Append exampleCtx ''B'' ''b'' [] 2 0 oneItemStore)) = 2
   \<and> submenu (last (items (snd (Append exampleCtx ''B'' ''b'' [] 2 0 oneItemStore) ! 0))) = Some 1
   \<and> map label (items (snd (Append exampleCtx ''B'' ''b'' [] 2 0 oneItemStore) ! 0)) = [''A'']
   \<and> wf_store emptyStore \<and> 0 < length emptyStore \<and> \<not> walkable emptyStore 0 (nat 1)
   \<and> chainEnd emptyStore 0 (nat 1) = None
   \<and> fst (Append exampleCtx ''B'' ''b'' [] 1 0 emptyStore) = Some TooMuchDepth
   \<and> snd (Append exampleCtx ''B'' ''b'' [] 1 0 emptyStore) = emptyStore"
proof -
  have h: "wf_store oneItemStore \<and> 0 < length oneItemStore \<and> \<not> walkable oneItemStore 0 (nat 2)
      \<and> chainEnd oneItemStore 0 (nat 2) = Some 0 \<and> length oneItemStore = 1
      \<and> length (items (oneItemStore ! 0)) = 1
      \<and> map label (items (oneItemStore ! 0)) = [''A'']"
    by (simp add: oneItemStore_eval wf_store_def numeral_2_eq_2)
  have g: "wf_store emptyStore \<and> 0 < length emptyStore \<and> \<not> walkable emptyStore 0 (nat 1)
      \<and> chainEnd emptyStore 0 (nat 1) = None"
    by (simp add: emptyStore_eval wf_store_def MakeMenu_def)
  have r: "length (setSubmenu exampleCtx 0 0 1 (oneItemStore @ [MakeMenu exampleCtx])) = 2
      \<and> submenu (last (items (setSubmenu exampleCtx 0 0 1 (oneItemStore @ [MakeMenu exampleCtx]) ! 0))) = Some 1
      \<and> map label (items (setSubmenu exampleCtx 0 0 1 (oneItemStore @ [MakeMenu exampleCtx]) ! 0)) = [''A'']"
    by (simp add: oneItemStore_eval setSubmenu_def Let_def)
  show ?thesis
    using h g r
      Append_too_deep [of oneItemStore 0 exampleCtx "''B''" "''b''" "[]" 2]
      Append_too_deep [of emptyStore 0 exampleCtx "''B''" "''b''" "[]" 1]
    by simp
qed

text \<open>
  The claim as the specification states it, that the failed call leaves the tree
  unchanged, fails: on the root with the single item A, which has no submenu, a call with
  depth 2 returns the depth error and A has a submenu afterwards, in a store that holds
  one menu more.
\<close>

theorem Append_too_deep_counterexample:
  "fst (Append exampleCtx ''B'' ''b'' [] 2 0 oneItemStore) = Some TooMuchDepth
   \<and> map submenu (items (oneItemStore ! 0)) = [None]
   \<and> map submenu (items (snd (Append exampleCtx ''B'' ''b'' [] 2 0 oneItemStore) ! 0)) = [Some 1]
   \<and> length oneItemStore = 1
   \<and> length (snd (Append exampleCtx ''B'' ''b'' [] 2 0 oneItemStore)) = 2
   \<and> snd (Append exampleCtx ''B'' ''b'' [] 2 0 oneItemStore) \<noteq> oneItemStore"
proof -
  have l: "length (snd (Append exampleCtx ''B'' ''b'' [] 2 0 oneItemStore)) = 2"
    by (simp add: oneItemStore_eval Append_def setSubmenu_def MakeMenu_def Let_def
          numeral_2_eq_2)
  have "length oneItemStore = 1" by (simp add: oneItemStore_eval)
  with l have "snd (Append exampleCtx ''B'' ''b'' [] 2 0 oneItemStore) \<noteq> oneItemStore"
    by auto
  then show ?thesis
    using l
    by (simp add: oneItemStore_eval Append_def setSubmenu_def MakeMenu_def Let_def
          numeral_2_eq_2)
qed

section \<open>Properties of a menu that was never shown\<close>

lemma visibleItems_unshown:
  "overflow m = 0 \<Longrightarrow> first m = 0 \<Longrightarrow>
   visibleItems True m = [Inr (- 1, overflowItemTop m), Inr (- 1, overflowItemBottom m)]
   \<and> visibleItems False m = []"
  by (simp add: visibleItems_def)

text \<open>
  C10. In a tree built by \<open>MakeMenu\<close> and any calls of \<open>Append\<close>, before any call of
  \<open>show\<close>, every menu has \<open>overflow\<close> 0 (not -1) and \<open>first\<close> 0, whatever it holds:
  \<open>visibleItems\<close> with the indicators yields the two scroll indicators and no item,
  and without them it yields nothing.
\<close>

theorem unshown_menu_overflow_zero:
  "\<forall>m \<in> set (build c lns).
     overflow m = 0 \<and> overflow m \<noteq> - 1 \<and> first m = 0
     \<and> visibleItems True m = [Inr (- 1, overflowItemTop m), Inr (- 1, overflowItemBottom m)]
     \<and> visibleItems False m = []"
proof -
  have "\<forall>m \<in> set (build c lns). overflow m = 0 \<and> first m = 0"
    by (rule build_pres) (simp_all add: MakeMenu_def)
  then show ?thesis using visibleItems_unshown by fastforce
qed

lemma editStore_labels:
  "map (\<lambda>m. map label (items m)) editStore = [[''Edit'', ''View''], [''Cut'', ''Copy'']]"
  by (simp add: editStore_def editLines_def build_def appendLine_def Append_def
        AppendItem_def makeItem_def MakeMenu_def setSubmenu_def exampleCtx_def Let_def)

theorem unshown_menu_overflow_zero_witness:
  "map label (items (editStore ! 1)) = [''Cut'', ''Copy'']
   \<and> overflow (editStore ! 1) = 0
   \<and> visibleItems True (editStore ! 1) =
       [Inr (- 1, overflowItemTop (editStore ! 1)), Inr (- 1, overflowItemBottom (editStore ! 1))]
   \<and> visibleItems False (editStore ! 1) = []"
proof -
  have "length (map (\<lambda>m. map label (items m)) editStore) = 2"
    by (simp add: editStore_labels)
  then have len: "length editStore = 2" by simp
  have "map (\<lambda>m. map label (items m)) editStore ! 1 = [''Cut'', ''Copy'']"
    by (simp add: editStore_labels)
  then have lab: "map label (items (editStore ! 1)) = [''Cut'', ''Copy'']"
    using len by simp
  have "editStore ! 1 \<in> set editStore" using len by simp
  then have mem: "editStore ! 1 \<in> set (build exampleCtx editLines)"
    by (simp add: editStore_def)
  show ?thesis
    using bspec [OF unshown_menu_overflow_zero mem] lab by simp
qed

section \<open>Properties of the buffer lifecycle\<close>

lemma outstanding_append:
  "outstanding sf (p\<lparr>attached := attached p @ [(sf1, b)], nextId := n\<rparr>) =
     outstanding sf p + (if sf1 = sf then 1 else 0)"
  by (simp add: outstanding_def)

lemma length_filter_filter_le: "length (filter P (filter Q xs)) \<le> length (filter P xs)"
  by (induction xs) auto

lemma drawFrame_bound:
  "drawFrame p = Inr p1 \<Longrightarrow> outstanding sf p1 \<le> outstanding sf p + 1"
  by (auto simp: drawFrame_def outstanding_def split: if_splits option.splits)

lemma pstep_bound:
  "pstep p ev = Inr p1 \<Longrightarrow> outstanding sf p1 \<le> outstanding sf p + redraws [ev]"
proof (cases ev)
  case UpdateWindow
  assume "pstep p ev = Inr p1"
  then show ?thesis using UpdateWindow
    by (auto simp: pstep_def updateWindow_def openFile_def outstanding_def redraws_def)
next
  case Draw
  assume "pstep p ev = Inr p1"
  then show ?thesis using Draw drawFrame_bound [of p _ sf]
    by (auto simp: pstep_def draw_def redraws_def split: sum.splits option.splits)
next
  case Configure
  assume "pstep p ev = Inr p1"
  then show ?thesis using Configure drawFrame_bound [of p _ sf]
    by (auto simp: pstep_def draw_def redraws_def split: sum.splits option.splits)
next
  case (Release b)
  assume "pstep p ev = Inr p1"
  then have "p1 = onRelease b p" using Release by (simp add: pstep_def)
  moreover have "length (filter (\<lambda>(sf1, b). sf1 = sf) (filter (\<lambda>(sf, b1). b1 \<noteq> b) (attached p)))
      \<le> length (filter (\<lambda>(sf1, b). sf1 = sf) (attached p))"
    by (rule length_filter_filter_le)
  ultimately show ?thesis by (simp add: onRelease_def outstanding_def)
next
  case Hide
  assume "pstep p ev = Inr p1"
  then show ?thesis using Hide by (auto simp: pstep_def hide_def outstanding_def)
qed

lemma redraws_Cons: "redraws (ev # evs) = redraws [ev] + redraws evs"
  by (simp add: redraws_def)

lemma prun_bound:
  "prun p evs = Inr p1 \<Longrightarrow> outstanding sf p1 \<le> outstanding sf p + redraws evs"
proof (induction evs arbitrary: p)
  case Nil
  then show ?case by (simp add: redraws_def)
next
  case (Cons ev evs)
  then obtain p2 where s: "pstep p ev = Inr p2" and r: "prun p2 evs = Inr p1"
    by (auto split: sum.splits)
  have "outstanding sf p1 \<le> outstanding sf p2 + redraws evs" using r by (rule Cons.IH)
  moreover have "outstanding sf p2 \<le> outstanding sf p + redraws [ev]" using s by (rule pstep_bound)
  ultimately show ?case using redraws_Cons [of ev evs] by linarith
qed

lemma filter_split_count:
  "length (filter P xs) = length (filter P (filter Q xs)) + length (filter (\<lambda>x. P x \<and> \<not> Q x) xs)"
  by (induction xs) auto

lemma outstanding_release:
  "outstanding sf (onRelease b p) + length (filter (\<lambda>(sf1, b1). sf1 = sf \<and> b1 = b) (attached p))
     = outstanding sf p"
proof -
  have e: "(\<lambda>x. (case x of (sf1, b1) \<Rightarrow> sf1 = sf) \<and> \<not> (case x of (sf1, b1) \<Rightarrow> b1 \<noteq> b))
         = (\<lambda>(sf1, b1). sf1 = sf \<and> b1 = b)"
    by (auto simp: fun_eq_iff)
  show ?thesis
    using filter_split_count [of "\<lambda>(sf1, b1). sf1 = sf" "attached p" "\<lambda>(sf1, b1). b1 \<noteq> b"]
    by (simp add: outstanding_def onRelease_def e)
qed

lemma shown_eval: "shownPresentation = \<lparr>surf = True, surface = Some 0, layersurface = Some 1, pool = Some 2, nextId = 3, attached = []\<rparr>"
  by (simp add: shownPresentation_def updateWindow_def newPresentation_def openFile_def)

text \<open>
  C1, as amended. \<open>drawFrame\<close> on a menu without a pool attaches nothing; on a menu
  with a pool it creates one buffer, the next object of the connection, and attaches it
  to the menu's surface behind whatever is attached there already, and \<open>draw\<close> and
  the configure handler do nothing else to the buffers; so the number of attached,
  unreleased buffers of the surface grows by one with every redraw. A release takes away
  the released buffer and no other: the buffers attached afterwards are those attached
  before other than the released one, in their order, and the count of a surface drops
  by the number of times the released buffer was attached to it. Over a run of redraws
  and releases the count is bounded by the number of redraws, not by 1.
\<close>

theorem drawFrame_attaches_unconditionally:
  "(pool p = None \<longrightarrow> drawFrame p = Inr p)
   \<and> (pool p \<noteq> None \<longrightarrow> surface p = Some sf \<longrightarrow>
        drawFrame p = Inr (p\<lparr>attached := attached p @ [(sf, nextId p)], nextId := nextId p + 1\<rparr>)
        \<and> pstep p Draw = drawFrame p \<and> pstep p Configure = drawFrame p
        \<and> (\<exists>p1. drawFrame p = Inr p1 \<and> outstanding sf p1 = outstanding sf p + 1))
   \<and> (\<exists>q. pstep p (Release b) = Inr q
          \<and> attached q = filter (\<lambda>(sf1, b1). b1 \<noteq> b) (attached p)
          \<and> surface q = surface p \<and> pool q = pool p \<and> nextId q = nextId p
          \<and> outstanding sf q + length (filter (\<lambda>(sf1, b1). sf1 = sf \<and> b1 = b) (attached p))
               = outstanding sf p)
   \<and> (prun p evs = Inr p2 \<longrightarrow> outstanding sf p2 \<le> outstanding sf p + redraws evs)"
proof -
  have a: "pool p = None \<longrightarrow> drawFrame p = Inr p" by (simp add: drawFrame_def)
  have b: "pool p \<noteq> None \<longrightarrow> surface p = Some sf \<longrightarrow>
        drawFrame p = Inr (p\<lparr>attached := attached p @ [(sf, nextId p)], nextId := nextId p + 1\<rparr>)
        \<and> pstep p Draw = drawFrame p \<and> pstep p Configure = drawFrame p
        \<and> (\<exists>p1. drawFrame p = Inr p1 \<and> outstanding sf p1 = outstanding sf p + 1)"
    by (auto simp: drawFrame_def pstep_def draw_def outstanding_def)
  have c: "\<exists>q. pstep p (Release b) = Inr q
          \<and> attached q = filter (\<lambda>(sf1, b1). b1 \<noteq> b) (attached p)
          \<and> surface q = surface p \<and> pool q = pool p \<and> nextId q = nextId p
          \<and> outstanding sf q + length (filter (\<lambda>(sf1, b1). sf1 = sf \<and> b1 = b) (attached p))
               = outstanding sf p"
    using outstanding_release [of sf b p] by (simp add: pstep_def onRelease_def)
  have d: "prun p evs = Inr p2 \<longrightarrow> outstanding sf p2 \<le> outstanding sf p + redraws evs"
    using prun_bound [of p evs p2 sf] by blast
  show ?thesis using a b c d by blast
qed

theorem drawFrame_attaches_unconditionally_witness:
  "pool twoAttached \<noteq> None \<and> surface twoAttached = Some 0
   \<and> prun shownPresentation [Draw, Draw] = Inr twoAttached
   \<and> drawFrame twoAttached = Inr (twoAttached\<lparr>attached := [(0, 3), (0, 4), (0, 5)], nextId := 6\<rparr>)
   \<and> outstanding 0 twoAttached = 2
   \<and> pstep twoAttached (Release 3) = Inr (twoAttached\<lparr>attached := [(0, 4)]\<rparr>)
   \<and> outstanding 0 (twoAttached\<lparr>attached := [(0, 4)]\<rparr>) = 1
   \<and> prun twoAttached [Release 3, Draw] = Inr (twoAttached\<lparr>attached := [(0, 4), (0, 5)], nextId := 6\<rparr>)
   \<and> outstanding 0 (twoAttached\<lparr>attached := [(0, 4), (0, 5)], nextId := 6\<rparr>)
        \<le> outstanding 0 twoAttached + redraws [Release 3, Draw]"
proof -
  have h: "pool twoAttached \<noteq> None \<and> surface twoAttached = Some 0
      \<and> attached twoAttached = [(0, 3), (0, 4)] \<and> nextId twoAttached = 5"
    by (simp add: twoAttached_def)
  have r: "prun twoAttached [Release 3, Draw] = Inr (twoAttached\<lparr>attached := [(0, 4), (0, 5)], nextId := 6\<rparr>)"
    by (simp add: twoAttached_def pstep_def draw_def drawFrame_def onRelease_def)
  have o: "outstanding 0 twoAttached = 2 \<and> outstanding 0 (twoAttached\<lparr>attached := [(0, 4)]\<rparr>) = 1"
    by (simp add: twoAttached_def outstanding_def)
  have s: "pstep twoAttached (Release 3) = Inr (twoAttached\<lparr>attached := [(0, 4)]\<rparr>)"
    by (simp add: twoAttached_def pstep_def onRelease_def)
  have t: "prun shownPresentation [Draw, Draw] = Inr twoAttached"
    by (simp add: shown_eval twoAttached_def pstep_def draw_def drawFrame_def)
  have d: "twoAttached\<lparr>attached := attached twoAttached @ [(0, nextId twoAttached)], nextId := nextId twoAttached + 1\<rparr>
      = twoAttached\<lparr>attached := [(0, 3), (0, 4), (0, 5)], nextId := 6\<rparr>"
    by (simp add: twoAttached_def)
  show ?thesis
    using h r o s t d drawFrame_attaches_unconditionally [of twoAttached 0 3 "[Release 3, Draw]"
        "twoAttached\<lparr>attached := [(0, 4), (0, 5)], nextId := 6\<rparr>"]
    by simp
qed

text \<open>
  The claim as the specification states it, at most one outstanding buffer per surface,
  fails: after \<open>updateWindow\<close> and two calls of \<open>draw\<close> with no release between
  them, two buffers are attached to surface 0. \<open>Run\<close> does this on a motion event
  over a new item: it calls \<open>menu.draw()\<close> in the case and \<open>curmenu.draw()\<close> at
  the end of the round.
\<close>

theorem two_draws_two_buffers_counterexample:
  "prun newPresentation [UpdateWindow, Draw, Draw] =
     Inr \<lparr>surf = True, surface = Some 0, layersurface = Some 1, pool = Some 2, nextId = 5,
          attached = [(0, 3), (0, 4)]\<rparr>
   \<and> outstanding 0 \<lparr>surf = True, surface = Some 0, layersurface = Some 1, pool = Some 2,
          nextId = 5, attached = [(0, 3), (0, 4)]\<rparr> = 2"
  by (simp add: newPresentation_def pstep_def updateWindow_def openFile_def draw_def
        drawFrame_def outstanding_def)


section \<open>Properties of show\<close>

lemma foldl_heights: "foldl (\<lambda>h item. h + ih item) h0 its = h0 + sum_list (map ih its)"
  by (induction its arbitrary: h0) auto

lemma fitItems_result:
  "fitItems maxY its i (w, h, ov) = (w1, h1, ov1) \<Longrightarrow>
   (ov1 = ov \<and> (\<forall>k < length its. h + sum_list (map ih (take (Suc k) its)) \<le> maxY))
   \<or> (\<exists>k < length its. ov1 = i + int k
         \<and> h + sum_list (map ih (take (Suc k) its)) > maxY
         \<and> (\<forall>j < k. h + sum_list (map ih (take (Suc j) its)) \<le> maxY))"
proof (induction its arbitrary: i w h)
  case Nil
  then show ?case by simp
next
  case (Cons item rest)
  show ?case
  proof (cases "ih item + h > maxY")
    case True
    then have "ov1 = i" using Cons.prems by simp
    then have "0 < length (item # rest) \<and> ov1 = i + int 0
         \<and> h + sum_list (map ih (take (Suc 0) (item # rest))) > maxY
         \<and> (\<forall>j < (0::nat). h + sum_list (map ih (take (Suc j) (item # rest))) \<le> maxY)"
      using True by simp
    then show ?thesis by blast
  next
    case False
    then have rec: "fitItems maxY rest (i + 1) (max w (iw item), h + ih item, ov) = (w1, h1, ov1)"
      using Cons.prems by simp
    from Cons.IH [OF rec]
    consider (fit) "ov1 = ov" "\<forall>k < length rest. h + ih item + sum_list (map ih (take (Suc k) rest)) \<le> maxY"
      | (cut) k where "k < length rest" "ov1 = i + 1 + int k"
          "h + ih item + sum_list (map ih (take (Suc k) rest)) > maxY"
          "\<forall>j < k. h + ih item + sum_list (map ih (take (Suc j) rest)) \<le> maxY"
      by blast
    then show ?thesis
    proof cases
      case fit
      have "h + sum_list (map ih (take (Suc k) (item # rest))) \<le> maxY" if "k < length (item # rest)" for k
      proof (cases k)
        case 0
        then show ?thesis using False by simp
      next
        case (Suc k')
        then show ?thesis using fit(2) that by (simp add: add.assoc)
      qed
      then show ?thesis using fit(1) by blast
    next
      case cut
      have below: "h + sum_list (map ih (take (Suc j) (item # rest))) \<le> maxY" if "j < Suc k" for j
      proof (cases j)
        case 0
        then show ?thesis using False by simp
      next
        case (Suc j')
        then show ?thesis using cut(4) that by (simp add: add.assoc)
      qed
      have "Suc k < length (item # rest) \<and> ov1 = i + int (Suc k)
         \<and> h + sum_list (map ih (take (Suc (Suc k)) (item # rest))) > maxY"
        using cut by (simp add: add.assoc)
      then show ?thesis using below by blast
    qed
  qed
qed

lemma recompute_fields:
  "items (recompute c m) = items m \<and> selected (recompute c m) = selected m
   \<and> first (recompute c m) = 0 \<and> caller (recompute c m) = caller m"
  by (simp add: recompute_def Let_def split: prod.splits)

lemma recompute_fits:
  "BorderSize c * 2 + sum_list (map ih (items m)) \<le> snd (snd (Monitor c)) \<Longrightarrow>
   overflow (recompute c m) = - 1"
  by (simp add: recompute_def Let_def foldl_heights)

lemma recompute_overflows:
  assumes big: "BorderSize c * 2 + sum_list (map ih (items m)) > snd (snd (Monitor c))"
    and ne: "items m \<noteq> []"
    and ind: "0 \<le> bottomArrowY c + PaddingY c * 2"
  shows "\<exists>k < length (items m). overflow (recompute c m) = int k
     \<and> (bottomArrowY c + PaddingY c * 2 + BorderSize c) * 2
         + sum_list (map ih (take (Suc k) (items m))) > snd (snd (Monitor c))
     \<and> (\<forall>j < k. (bottomArrowY c + PaddingY c * 2 + BorderSize c) * 2
         + sum_list (map ih (take (Suc j) (items m))) \<le> snd (snd (Monitor c)))"
proof -
  let ?maxY = "snd (snd (Monitor c))"
  let ?res = "(bottomArrowY c + PaddingY c * 2 + BorderSize c) * 2"
  let ?w1 = "foldl (\<lambda>w item. max w (iw item)) (BorderSize c * 2 + MinItemWidth c) (items m)"
  obtain w2 h2 ov where f: "fitItems ?maxY (items m) 0 (?w1, ?res, - 1) = (w2, h2, ov)"
    by (cases "fitItems ?maxY (items m) 0 (?w1, ?res, - 1)") auto
  have ov: "overflow (recompute c m) = ov"
    using big f by (simp add: recompute_def Let_def foldl_heights)
  have "\<not> (\<forall>k < length (items m). ?res + sum_list (map ih (take (Suc k) (items m))) \<le> ?maxY)"
  proof
    assume a: "\<forall>k < length (items m). ?res + sum_list (map ih (take (Suc k) (items m))) \<le> ?maxY"
    have "length (items m) - 1 < length (items m)" using ne by simp
    then have "?res + sum_list (map ih (take (Suc (length (items m) - 1)) (items m))) \<le> ?maxY"
      using a by blast
    moreover have "Suc (length (items m) - 1) = length (items m)" using ne by simp
    ultimately have "?res + sum_list (map ih (items m)) \<le> ?maxY" by simp
    then show False using big ind by simp
  qed
  then show ?thesis using fitItems_result [OF f] ov by auto
qed

lemma spawnAt_fields:
  "items (spawnAt c m) = items m \<and> selected (spawnAt c m) = selected m
   \<and> first (spawnAt c m) = first m \<and> overflow (spawnAt c m) = overflow m"
  by (simp add: spawnAt_def)

lemma clampToMonitor_fields:
  "items (clampToMonitor c m) = items m \<and> selected (clampToMonitor c m) = selected m
   \<and> first (clampToMonitor c m) = first m \<and> overflow (clampToMonitor c m) = overflow m"
  by (simp add: clampToMonitor_def Let_def)

text \<open>
  What \<open>show\<close> writes: one menu of the store, whose items, selection and scroll window
  are those of the menu after the recomputation.
\<close>

lemma show_menu_result:
  assumes "show_menu c menu cal st = Inr st1"
  shows "\<exists>m1. st1 = st[menu := m1]
     \<and> items m1 = items (st ! menu) \<and> selected m1 = selected (st ! menu)
     \<and> first m1 = first (if itemsChanged (st ! menu) then recompute c (st ! menu) else st ! menu)
     \<and> overflow m1 = overflow (if itemsChanged (st ! menu) then recompute c (st ! menu) else st ! menu)"
proof -
  let ?m1 = "if itemsChanged (st ! menu) then recompute c (st ! menu) else st ! menu"
  have keep: "items ?m1 = items (st ! menu) \<and> selected ?m1 = selected (st ! menu)"
    by (simp add: recompute_fields)
  from assms obtain m3 where st1: "st1 = st[menu := clampToMonitor c m3]"
    and m3: "items m3 = items ?m1 \<and> selected m3 = selected ?m1 \<and> first m3 = first ?m1
             \<and> overflow m3 = overflow ?m1"
    unfolding show_menu_def Let_def
    by (auto simp: spawnAt_fields split: sum.splits option.splits if_splits)
  show ?thesis
    using st1 m3 keep clampToMonitor_fields [of c m3] by (intro exI [of _ "clampToMonitor c m3"]) simp
qed

lemma Monitor_maxY: "snd (snd (Monitor c)) = snd (monOffset c) + snd (monSize c)"
  by (simp add: Monitor_def)

text \<open>
  C7. After \<open>show\<close> on a menu whose items changed, \<open>first\<close> is 0. With \<open>total\<close>
  the two borders plus the heights of all items, \<open>show\<close> compares \<open>total\<close> with
  \<open>mr.Max.Y\<close>, the lower edge of the display in the compositor's space, which is the
  y offset of the display plus its height: if \<open>total\<close> is at most that edge then
  \<open>overflow\<close> is -1, whatever the number of items; otherwise (the menu has items, and
  a scroll indicator has no negative height) \<open>overflow\<close> is the index of the first
  item that no longer fits under that edge when the heights are added up from the start
  on top of the room of the two indicators. On a display at offset 0 the edge is the
  height of the display and this is the behaviour specified. On a display with a
  positive offset it is not: a menu higher than the display and no higher than offset plus
  height gets \<open>overflow = -1\<close>, and the clamps of \<open>show\<close> then leave it reaching
  below the display.
\<close>

theorem show_recompute_overflow:
  assumes "menu < length st" and "itemsChanged (st ! menu)"
    and "show_menu c menu cal st = Inr st1"
  shows "first (st1 ! menu) = 0
     \<and> (BorderSize c * 2 + sum_list (map ih (items (st ! menu))) \<le> snd (monOffset c) + snd (monSize c)
          \<longrightarrow> overflow (st1 ! menu) = - 1)
     \<and> (BorderSize c * 2 + sum_list (map ih (items (st ! menu))) > snd (monOffset c) + snd (monSize c)
          \<longrightarrow> items (st ! menu) \<noteq> [] \<longrightarrow> 0 \<le> bottomArrowY c + PaddingY c * 2
          \<longrightarrow> (\<exists>k < length (items (st ! menu)). overflow (st1 ! menu) = int k
                 \<and> (bottomArrowY c + PaddingY c * 2 + BorderSize c) * 2
                     + sum_list (map ih (take (Suc k) (items (st ! menu))))
                       > snd (monOffset c) + snd (monSize c)
                 \<and> (\<forall>j < k. (bottomArrowY c + PaddingY c * 2 + BorderSize c) * 2
                     + sum_list (map ih (take (Suc j) (items (st ! menu))))
                       \<le> snd (monOffset c) + snd (monSize c))))
     \<and> (snd (monSize c) < BorderSize c * 2 + sum_list (map ih (items (st ! menu)))
          \<longrightarrow> BorderSize c * 2 + sum_list (map ih (items (st ! menu)))
                \<le> snd (monOffset c) + snd (monSize c)
          \<longrightarrow> overflow (st1 ! menu) = - 1)"
proof -
  from show_menu_result [OF assms(3)] obtain m1 where st1: "st1 = st[menu := m1]"
    and f: "first m1 = first (recompute c (st ! menu))"
    and o: "overflow m1 = overflow (recompute c (st ! menu))"
    using assms(2) by auto
  have nth: "st1 ! menu = m1" using st1 assms(1) by simp
  show ?thesis
    unfolding nth f o Monitor_maxY [symmetric]
    using recompute_fields [of c "st ! menu"] recompute_fits [of c "st ! menu"]
      recompute_overflows [of c "st ! menu"]
    by blast
qed

lemma threeStore_eval:
  "threeStore =
     [\<lparr>items = [\<lparr>item_output = ''1'', label = ''one'', submenu = None, icon = False,
                 overflower = OverflowNone, iw = 24, ih = 20\<rparr>,
               \<lparr>item_output = ''2'', label = ''two'', submenu = None, icon = False,
                 overflower = OverflowNone, iw = 24, ih = 20\<rparr>,
               \<lparr>item_output = ''3'', label = ''three'', submenu = None, icon = False,
                 overflower = OverflowNone, iw = 40, ih = 20\<rparr>],
       first = 0, selected = 0, overflow = 0, mx = - 1, my = - 1, mw = 0, mh = 0,
       caller = None, itemsChanged = True,
       overflowItemTop = makeOverflow smallCtx True,
       overflowItemBottom = makeOverflow smallCtx False\<rparr>]"
  by (simp add: threeStore_def build_def appendLine_def Append_def AppendItem_def
        makeItem_def MakeMenu_def smallCtx_def Let_def)

lemma show_menu_root:
  "show_menu c menu None st =
     Inr (st[menu := clampToMonitor c (spawnAt c
            (if itemsChanged (st ! menu) then recompute c (st ! menu) else st ! menu))])"
  by (simp add: show_menu_def Let_def)

theorem show_recompute_overflow_witness:
  "0 < length threeStore \<and> itemsChanged (threeStore ! 0)
   \<and> BorderSize offsetCtx * 2 + sum_list (map ih (items (threeStore ! 0))) = 60
   \<and> snd (monSize offsetCtx) = 50 \<and> snd (monOffset offsetCtx) = 100
   \<and> (\<exists>st1. show_menu offsetCtx 0 None threeStore = Inr st1
          \<and> first (st1 ! 0) = 0 \<and> overflow (st1 ! 0) = - 1
          \<and> my (st1 ! 0) = 100 \<and> mh (st1 ! 0) = 60)
   \<and> Monitor offsetCtx = ((0, 100), (100, 150))
   \<and> BorderSize smallCtx * 2 + sum_list (map ih (items (threeStore ! 0))) = 60
   \<and> snd (monSize smallCtx) = 50 \<and> snd (monOffset smallCtx) = 0
   \<and> (\<exists>st1. show_menu smallCtx 0 None threeStore = Inr st1
          \<and> first (st1 ! 0) = 0 \<and> overflow (st1 ! 0) = 2)"
proof -
  have h: "0 < length threeStore" "itemsChanged (threeStore ! 0)"
    by (simp_all add: threeStore_eval)
  have n: "BorderSize offsetCtx * 2 + sum_list (map ih (items (threeStore ! 0))) = 60
      \<and> snd (monSize offsetCtx) = 50 \<and> snd (monOffset offsetCtx) = 100
      \<and> BorderSize smallCtx * 2 + sum_list (map ih (items (threeStore ! 0))) = 60
      \<and> snd (monSize smallCtx) = 50 \<and> snd (monOffset smallCtx) = 0"
    by (simp add: threeStore_eval offsetCtx_def smallCtx_def)
  obtain st2 where ev2: "show_menu offsetCtx 0 None threeStore = Inr st2"
    by (simp add: show_menu_root)
  have g: "my (st2 ! 0) = 100 \<and> mh (st2 ! 0) = 60 \<and> Monitor offsetCtx = ((0, 100), (100, 150))"
    using ev2
    by (auto simp: show_menu_root threeStore_eval recompute_def Monitor_def
        spawnAt_def clampToMonitor_def offsetCtx_def smallCtx_def makeOverflow_def Let_def)
  from show_recompute_overflow [OF h ev2] n
  have a: "first (st2 ! 0) = 0 \<and> overflow (st2 ! 0) = - 1" by simp
  obtain st1 where ev: "show_menu smallCtx 0 None threeStore = Inr st1"
    by (simp add: show_menu_root)
  have its: "items (threeStore ! 0) \<noteq> []" "0 \<le> bottomArrowY smallCtx + PaddingY smallCtx * 2"
    by (simp_all add: threeStore_eval smallCtx_def)
  from show_recompute_overflow [OF h ev] n its
  obtain k where f: "first (st1 ! 0) = 0" and k: "k < length (items (threeStore ! 0))"
    "overflow (st1 ! 0) = int k"
    "(bottomArrowY smallCtx + PaddingY smallCtx * 2 + BorderSize smallCtx) * 2
       + sum_list (map ih (take (Suc k) (items (threeStore ! 0))))
         > snd (monOffset smallCtx) + snd (monSize smallCtx)"
    by auto
  from k(1) have "k = 0 \<or> k = 1 \<or> k = 2" by (auto simp: threeStore_eval)
  then have "k = 2"
    using k(3) by (auto simp: threeStore_eval smallCtx_def)
  then show ?thesis using h n ev ev2 a g f k(2) by simp
qed

section \<open>Properties of the invariant\<close>


lemma menu_inv_MakeMenu: "menu_inv (MakeMenu c)"
  by (simp add: menu_inv_def MakeMenu_def)

lemma menu_inv_resize:
  "menu_inv m \<Longrightarrow> length its = length (items m) \<Longrightarrow> menu_inv (m\<lparr>mw := a, items := its\<rparr>)"
  by (cases "items m"; cases its) (auto simp: menu_inv_def)

lemma menu_inv_append:
  "menu_inv m \<Longrightarrow> menu_inv (m\<lparr>items := items m @ [it], itemsChanged := True\<rparr>)"
  by (auto simp: menu_inv_def split: if_splits)






lemma getitem_loop_range:
  "getitem_loop target y vs = Inr r \<Longrightarrow>
   \<forall>v \<in> set vs. \<forall>i it. v = Inr (i, it) \<longrightarrow> i = - 1 \<or> (0 \<le> i \<and> i < n) \<Longrightarrow>
   r = - 1 \<or> (0 \<le> r \<and> r < n)"
proof (induction target y vs rule: getitem_loop.induct)
  case (1 target y)
  then show ?case by simp
next
  case (2 target y e rest)
  then show ?case by simp
next
  case (3 target y i item rest)
  then show ?case by (auto split: if_splits)
qed

lemma visibleItems_range:
  "\<forall>v \<in> set (visibleItems b m). \<forall>i it. v = Inr (i, it) \<longrightarrow>
     i = - 1 \<or> (0 \<le> i \<and> i < int (length (items m)))"
  by (auto simp: visibleItems_def)

lemma getitem_range:
  "getitem c m target = Inr r \<Longrightarrow> r = - 1 \<or> (0 \<le> r \<and> r < int (length (items m)))"
  unfolding getitem_def using getitem_loop_range visibleItems_range by blast


lemma visibleItems_no_panic:
  assumes "menu_inv m"
  shows "\<forall>v \<in> set (visibleItems b m). \<exists>i it. v = Inr (i, it)"
proof (cases "overflow m = - 1")
  case True
  then show ?thesis by (auto simp: visibleItems_def)
next
  case False
  with assms have bounds: "0 \<le> first m" "first m \<le> int (length (items m)) - overflow m"
    by (simp_all add: menu_inv_def)
  have "0 \<le> i \<and> i < int (length (items m))"
    if "i \<in> set [first m..first m + overflow m - 1]" for i
  proof -
    from that have "first m \<le> i" "i \<le> first m + overflow m - 1" by simp_all
    with bounds show ?thesis by linarith
  qed
  then have "\<forall>v \<in> set (map (\<lambda>i. if 0 \<le> i \<and> i < int (length (items m))
                 then Inr (i, items m ! nat i) else Inl IndexOutOfRange)
         [first m..first m + overflow m - 1]). \<exists>i it. v = Inr (i, it)"
    by auto
  then show ?thesis using False by (simp add: visibleItems_def Ball_def)
qed

lemma getitem_loop_total:
  "\<forall>v \<in> set vs. \<exists>i it. v = Inr (i, it) \<Longrightarrow> \<exists>r. getitem_loop target y vs = Inr r"
  by (induction target y vs rule: getitem_loop.induct) auto

lemma sumVisible_total:
  "\<forall>v \<in> set vs. \<exists>i it. v = Inr (i, it) \<Longrightarrow> \<exists>r. sumVisible y vs = Inr r"
  by (induction y vs rule: sumVisible.induct) auto

lemma getitem_total: "menu_inv m \<Longrightarrow> \<exists>r. getitem c m target = Inr r"
  unfolding getitem_def using getitem_loop_total visibleItems_no_panic by blast

lemma isoverflowitem_total: "menu_inv m \<Longrightarrow> \<exists>ov. isoverflowitem c m target = Inr ov"
proof -
  assume "menu_inv m"
  then have "\<forall>v \<in> set (visibleItems False m). \<exists>i it. v = Inr (i, it)"
    by (rule visibleItems_no_panic)
  then have "\<exists>r. sumVisible (BorderSize c + ih (overflowItemTop m)) (visibleItems False m) = Inr r"
    by (rule sumVisible_total)
  then show ?thesis by (auto simp: isoverflowitem_def Let_def)
qed





lemma menus_finishRound: "menus (finishRound a b s) = menus s"
  by (simp add: finishRound_def Let_def)











lemma build_inv: "\<forall>m \<in> set (build c lns). menu_inv m"
  using menu_inv_MakeMenu menu_inv_resize menu_inv_append by (rule build_pres)





section \<open>Properties of the event loop\<close>

lemma scroll_bounds:
  assumes "menu_inv m" and "overflow m \<noteq> - 1"
  shows "0 \<le> max (first m - 1) 0 \<and> first m - 1 \<le> max (first m - 1) 0
       \<and> max (first m - 1) 0 \<le> first m
       \<and> first m \<le> min (first m + 1) (int (length (items m)) - overflow m)
       \<and> min (first m + 1) (int (length (items m)) - overflow m) \<le> first m + 1
       \<and> min (first m + 1) (int (length (items m)) - overflow m) \<le> int (length (items m)) - overflow m"
proof -
  from assms have "0 \<le> first m" "first m \<le> int (length (items m)) - overflow m"
    by (simp_all add: menu_inv_def)
  then show ?thesis by linarith
qed

text \<open>
  C9. In overflow mode, on a menu that satisfies the invariant. A press on the upper
  indicator sets \<open>first\<close> to \<open>max(first - 1, 0)\<close>, a press on the lower indicator
  sets it to \<open>min(first + 1, len(items) - overflow)\<close>, and an axis event of the
  horizontal axis does the first for a negative value and the second for a positive one:
  \<open>first\<close> moves by at most one step in its direction and stays in
  \<open>[0, len(items) - overflow]\<close>, as specified. An axis event of the vertical axis,
  which is what a scroll wheel sends, is dropped by the test
  \<open>ev.Axis != proto.PointerAxisHorizontalScroll\<close>: it leaves the whole state, and so
  \<open>first\<close>, as it is, also where there is room to scroll.
\<close>

theorem scroll_adjusts_first_by_one:
  assumes "curmenu s < length (menus s)"
    and "menu_inv (menus s ! curmenu s)"
    and "overflow (menus s ! curmenu s) \<noteq> - 1"
  shows "handleEvent s (PointerAxisEvent PointerAxisVerticalScroll v) = Inr (Continue s)
       \<and> (\<exists>s1. handleEvent s (PointerAxisEvent PointerAxisHorizontalScroll v) = Inr (Continue s1)
            \<and> first (menus s1 ! curmenu s) =
                (if v < 0 then max (first (menus s ! curmenu s) - 1) 0
                 else if 0 < v
                 then min (first (menus s ! curmenu s) + 1)
                        (int (length (items (menus s ! curmenu s))) - overflow (menus s ! curmenu s))
                 else first (menus s ! curmenu s)))
       \<and> (isoverflowitem (ctxmenu s) (menus s ! curmenu s) (curY s) = Inr OverflowTop \<longrightarrow>
            (\<exists>s1. handleEvent s (PointerButtonEvent PRESSED button) = Inr (Continue s1)
               \<and> first (menus s1 ! curmenu s) = max (first (menus s ! curmenu s) - 1) 0))
       \<and> (isoverflowitem (ctxmenu s) (menus s ! curmenu s) (curY s) = Inr OverflowBottom \<longrightarrow>
            (\<exists>s1. handleEvent s (PointerButtonEvent PRESSED button) = Inr (Continue s1)
               \<and> first (menus s1 ! curmenu s) =
                   min (first (menus s ! curmenu s) + 1)
                     (int (length (items (menus s ! curmenu s))) - overflow (menus s ! curmenu s))))
       \<and> 0 \<le> max (first (menus s ! curmenu s) - 1) 0
       \<and> first (menus s ! curmenu s) - 1 \<le> max (first (menus s ! curmenu s) - 1) 0
       \<and> max (first (menus s ! curmenu s) - 1) 0 \<le> first (menus s ! curmenu s)
       \<and> first (menus s ! curmenu s)
            \<le> min (first (menus s ! curmenu s) + 1)
                 (int (length (items (menus s ! curmenu s))) - overflow (menus s ! curmenu s))
       \<and> min (first (menus s ! curmenu s) + 1)
            (int (length (items (menus s ! curmenu s))) - overflow (menus s ! curmenu s))
            \<le> first (menus s ! curmenu s) + 1
       \<and> min (first (menus s ! curmenu s) + 1)
            (int (length (items (menus s ! curmenu s))) - overflow (menus s ! curmenu s))
            \<le> int (length (items (menus s ! curmenu s))) - overflow (menus s ! curmenu s)"
proof -
  let ?m = "menus s ! curmenu s"
  have vert: "handleEvent s (PointerAxisEvent PointerAxisVerticalScroll v) = Inr (Continue s)"
    by (simp add: handleEvent_def onAxis_def Let_def)
  have axis: "\<exists>s1. handleEvent s (PointerAxisEvent PointerAxisHorizontalScroll v) = Inr (Continue s1)
            \<and> first (menus s1 ! curmenu s) =
                (if v < 0 then max (first ?m - 1) 0
                 else if 0 < v then min (first ?m + 1) (int (length (items ?m)) - overflow ?m)
                 else first ?m)"
    using assms(1,3)
    by (simp add: handleEvent_def onAxis_def Let_def menus_finishRound scrollUp_def scrollDown_def)
  obtain item where gi: "getitem (ctxmenu s) ?m (curY s) = Inr item"
    using getitem_total [OF assms(2)] by blast
  have top: "isoverflowitem (ctxmenu s) ?m (curY s) = Inr OverflowTop \<longrightarrow>
            (\<exists>s1. handleEvent s (PointerButtonEvent PRESSED button) = Inr (Continue s1)
               \<and> first (menus s1 ! curmenu s) = max (first ?m - 1) 0)"
    using assms(1) gi
    by (simp add: handleEvent_def onButton_def Let_def menus_finishRound scrollUp_def)
  have bottom: "isoverflowitem (ctxmenu s) ?m (curY s) = Inr OverflowBottom \<longrightarrow>
            (\<exists>s1. handleEvent s (PointerButtonEvent PRESSED button) = Inr (Continue s1)
               \<and> first (menus s1 ! curmenu s) =
                   min (first ?m + 1) (int (length (items ?m)) - overflow ?m))"
    using assms(1) gi
    by (simp add: handleEvent_def onButton_def Let_def menus_finishRound scrollDown_def)
  from vert axis top bottom scroll_bounds [OF assms(2,3)] show ?thesis by blast
qed

lemma threeShown_inv: "menu_inv (threeShown ! 0) \<and> overflow (threeShown ! 0) = 2 \<and> first (threeShown ! 0) = 0
   \<and> length (items (threeShown ! 0)) = 3 \<and> length threeShown = 1"
  by (simp add: threeShown_def threeStore_eval menu_inv_def)

lemma scrollState_bottom:
  "isoverflowitem (ctxmenu scrollState) (menus scrollState ! curmenu scrollState) (curY scrollState)
     = Inr OverflowBottom"
  by (simp add: scrollState_def threeShown_def threeStore_eval isoverflowitem_def
        visibleItems_def smallCtx_def makeOverflow_def Let_def upto_rec1)

theorem scroll_adjusts_first_by_one_witness:
  "curmenu scrollState < length (menus scrollState)
   \<and> menu_inv (menus scrollState ! curmenu scrollState)
   \<and> overflow (menus scrollState ! curmenu scrollState) = 2
   \<and> first (menus scrollState ! curmenu scrollState) = 0
   \<and> length (items (menus scrollState ! curmenu scrollState)) = 3
   \<and> handleEvent scrollState (PointerAxisEvent PointerAxisVerticalScroll 1) = Inr (Continue scrollState)
   \<and> isoverflowitem (ctxmenu scrollState) (menus scrollState ! curmenu scrollState)
        (curY scrollState) = Inr OverflowBottom
   \<and> (\<exists>s1. handleEvent scrollState (PointerButtonEvent PRESSED 0) = Inr (Continue s1)
          \<and> first (menus s1 ! curmenu scrollState) = 1)
   \<and> (\<exists>s1. handleEvent scrollState (PointerAxisEvent PointerAxisHorizontalScroll 1) = Inr (Continue s1)
          \<and> first (menus s1 ! curmenu scrollState) = 1)"
proof -
  have h: "curmenu scrollState < length (menus scrollState)
     \<and> menu_inv (menus scrollState ! curmenu scrollState)
     \<and> overflow (menus scrollState ! curmenu scrollState) = 2
     \<and> first (menus scrollState ! curmenu scrollState) = 0
     \<and> length (items (menus scrollState ! curmenu scrollState)) = 3"
    using threeShown_inv by (simp add: scrollState_def)
  then have ne: "overflow (menus scrollState ! curmenu scrollState) \<noteq> - 1" by simp
  from scroll_adjusts_first_by_one [of scrollState 1 0] h ne scrollState_bottom
  show ?thesis by simp
qed

text \<open>
  A press on a labelled item without a submenu returns the output of that item.
\<close>

lemma leaf_activation_returns_output:
  assumes "getitem (ctxmenu s) (menus s ! curmenu s) (curY s) = Inr item"
    and "isoverflowitem (ctxmenu s) (menus s ! curmenu s) (curY s) = Inr OverflowNone"
    and "item \<noteq> - 1"
    and "label (items (menus s ! curmenu s) ! nat item) \<noteq> []"
    and "submenu (items (menus s ! curmenu s) ! nat item) = None"
  shows "handleEvent s (PointerButtonEvent PRESSED button) =
           Inr (Return (item_output (items (menus s ! curmenu s) ! nat item)) None)"
proof -
  have "0 \<le> item \<and> item < int (length (items (menus s ! curmenu s)))"
    using getitem_range [OF assms(1)] assms(3) by simp
  then show ?thesis using assms by (simp add: handleEvent_def onButton_def Let_def)
qed

text \<open>
  C6. No key does anything: for every state of the loop a key event, pressed or released,
  Escape or any other, leaves the state as it is and the loop goes on; so does any
  sequence of key presses. In a submenu Escape does not go back to the caller, and in the
  root it does not end the loop. The other half of what is specified holds: a press of
  a button on a labelled item without a submenu ends the loop with the output of that
  item and no error.
\<close>

theorem key_press_changes_nothing:
  "handleEvent s (KeyboardKeyEvent state key) = Inr (Continue s)
   \<and> runLoop s (map (KeyboardKeyEvent KeyboardKeyStatePressed) keys) = Inr (Continue s)
   \<and> (getitem (ctxmenu s) (menus s ! curmenu s) (curY s) = Inr item \<longrightarrow>
      isoverflowitem (ctxmenu s) (menus s ! curmenu s) (curY s) = Inr OverflowNone \<longrightarrow>
      item \<noteq> - 1 \<longrightarrow>
      label (items (menus s ! curmenu s) ! nat item) \<noteq> [] \<longrightarrow>
      submenu (items (menus s ! curmenu s) ! nat item) = None \<longrightarrow>
      handleEvent s (PointerButtonEvent PRESSED button) =
        Inr (Return (item_output (items (menus s ! curmenu s) ! nat item)) None))"
proof -
  have one: "handleEvent s (KeyboardKeyEvent st k) = Inr (Continue s)" for st k
    by (simp add: handleEvent_def)
  have "runLoop s (map (KeyboardKeyEvent KeyboardKeyStatePressed) keys) = Inr (Continue s)"
    by (induction keys) (simp_all add: one)
  with one leaf_activation_returns_output [of s item button] show ?thesis by blast
qed

theorem key_press_changes_nothing_witness:
  "getitem (ctxmenu (scrollState\<lparr>curY := 10\<rparr>))
       (menus (scrollState\<lparr>curY := 10\<rparr>) ! curmenu (scrollState\<lparr>curY := 10\<rparr>))
       (curY (scrollState\<lparr>curY := 10\<rparr>)) = Inr 0
   \<and> isoverflowitem (ctxmenu (scrollState\<lparr>curY := 10\<rparr>))
       (menus (scrollState\<lparr>curY := 10\<rparr>) ! curmenu (scrollState\<lparr>curY := 10\<rparr>))
       (curY (scrollState\<lparr>curY := 10\<rparr>)) = Inr OverflowNone
   \<and> label (items (menus (scrollState\<lparr>curY := 10\<rparr>) ! curmenu (scrollState\<lparr>curY := 10\<rparr>)) ! 0) = ''one''
   \<and> submenu (items (menus (scrollState\<lparr>curY := 10\<rparr>) ! curmenu (scrollState\<lparr>curY := 10\<rparr>)) ! 0) = None
   \<and> handleEvent (scrollState\<lparr>curY := 10\<rparr>) (PointerButtonEvent PRESSED 1) = Inr (Return ''1'' None)
   \<and> handleEvent (scrollState\<lparr>curY := 10\<rparr>) (KeyboardKeyEvent KeyboardKeyStatePressed 1)
        = Inr (Continue (scrollState\<lparr>curY := 10\<rparr>))"
proof -
  let ?s = "scrollState\<lparr>curY := 10\<rparr>"
  have g: "getitem (ctxmenu ?s) (menus ?s ! curmenu ?s) (curY ?s) = Inr 0"
    by (simp add: scrollState_def threeShown_def threeStore_eval getitem_def
        visibleItems_def smallCtx_def makeOverflow_def Let_def upto_rec1)
  have o: "isoverflowitem (ctxmenu ?s) (menus ?s ! curmenu ?s) (curY ?s) = Inr OverflowNone"
    by (simp add: scrollState_def threeShown_def threeStore_eval isoverflowitem_def
        visibleItems_def smallCtx_def makeOverflow_def Let_def upto_rec1)
  have i: "label (items (menus ?s ! curmenu ?s) ! 0) = ''one''
      \<and> submenu (items (menus ?s ! curmenu ?s) ! 0) = None
      \<and> item_output (items (menus ?s ! curmenu ?s) ! 0) = ''1''"
    by (simp add: scrollState_def threeShown_def threeStore_eval)
  from key_press_changes_nothing [of ?s KeyboardKeyStatePressed 1 "[]" 0 1] g o i
  show ?thesis by simp
qed

end
